theory Spec2Isabelle
  imports Main "HOL-Library.Word" "HOL-Library.Sublist"
begin

unbundle bit_operations_syntax

section \<open>Go strings and the functions of package strings the tools call\<close>

text \<open>
  A Go string is a sequence of bytes, here a \<open>string\<close> (a list of 8-bit characters).
  A Go \<open>int\<close> is a 64-bit machine integer, here a \<open>64 word\<close>: \<open>+\<close> wraps around.
\<close>

type_synonym go_int = "64 word"

text \<open>
  \<open>unicode.IsSpace\<close>: the white-space runes are U+0009 to U+000D, U+0020, U+0085,
  U+00A0, U+1680, U+2000 to U+200A, U+2028, U+2029, U+202F, U+205F and U+3000.
  \<open>spaceSeqs\<close> lists their UTF-8 encodings.
\<close>

definition spaceSeqs :: "string list" where
  "spaceSeqs =
    [[CHR 0x09], [CHR 0x0A], [CHR 0x0B], [CHR 0x0C], [CHR 0x0D], [CHR 0x20],
     [CHR 0xC2, CHR 0x85], [CHR 0xC2, CHR 0xA0],
     [CHR 0xE1, CHR 0x9A, CHR 0x80],
     [CHR 0xE2, CHR 0x80, CHR 0x80], [CHR 0xE2, CHR 0x80, CHR 0x81],
     [CHR 0xE2, CHR 0x80, CHR 0x82], [CHR 0xE2, CHR 0x80, CHR 0x83],
     [CHR 0xE2, CHR 0x80, CHR 0x84], [CHR 0xE2, CHR 0x80, CHR 0x85],
     [CHR 0xE2, CHR 0x80, CHR 0x86], [CHR 0xE2, CHR 0x80, CHR 0x87],
     [CHR 0xE2, CHR 0x80, CHR 0x88], [CHR 0xE2, CHR 0x80, CHR 0x89],
     [CHR 0xE2, CHR 0x80, CHR 0x8A],
     [CHR 0xE2, CHR 0x80, CHR 0xA8], [CHR 0xE2, CHR 0x80, CHR 0xA9],
     [CHR 0xE2, CHR 0x80, CHR 0xAF],
     [CHR 0xE2, CHR 0x81, CHR 0x9F],
     [CHR 0xE3, CHR 0x80, CHR 0x80]]"

text \<open>
  \<open>dropSeqs es s\<close> removes from the front of \<open>s\<close> every leading occurrence of a
  sequence of \<open>es\<close>: the loop of \<open>strings.TrimLeftFunc\<close>, which decodes one rune at
  a time and stops at the first rune that is not white space. A rune is white space
  exactly when the bytes in front are one of \<open>spaceSeqs\<close>; any other bytes, malformed
  UTF-8 included, decode to a rune that is not white space.
\<close>

function dropSeqs :: "string list \<Rightarrow> string \<Rightarrow> string" where
  "dropSeqs es s =
     (case find (\<lambda>e. prefix e s) es of
        None \<Rightarrow> s
      | Some e \<Rightarrow> if e = [] then s else dropSeqs es (drop (length e) s))"
  by pat_completeness auto
termination
proof (relation "measure (\<lambda>(es, s). length s)")
  show "wf (measure (\<lambda>(es, s). length s))" by simp
next
  fix es :: "string list" and s e :: string
  assume f: "find (\<lambda>e. prefix e s) es = Some e" and ne: "e \<noteq> []"
  from f have "prefix e s" by (auto simp: find_Some_iff)
  with ne have "s \<noteq> []" by auto
  with ne show "((es, drop (length e) s), (es, s)) \<in> measure (\<lambda>(es, s). length s)"
    by simp
qed

definition TrimLeftSpace :: "string \<Rightarrow> string" where
  "TrimLeftSpace s = dropSeqs spaceSeqs s"

text \<open>
  \<open>strings.TrimRightFunc\<close> decodes the last rune of the string again and again; the
  last rune is white space exactly when the string ends in one of \<open>spaceSeqs\<close>.
\<close>

definition TrimRightSpace :: "string \<Rightarrow> string" where
  "TrimRightSpace s = rev (dropSeqs (map rev spaceSeqs) (rev s))"

definition TrimSpace :: "string \<Rightarrow> string" where
  "TrimSpace s = TrimRightSpace (TrimLeftSpace s)"

definition HasPrefix :: "string \<Rightarrow> string \<Rightarrow> bool" where
  "HasPrefix s p = prefix p s"

definition TrimPrefix :: "string \<Rightarrow> string \<Rightarrow> string" where
  "TrimPrefix s p = (if HasPrefix s p then drop (length p) s else s)"

text \<open>\<open>strings.Index\<close> for a separator of one byte: the first position, or -1.\<close>

definition Index :: "string \<Rightarrow> char \<Rightarrow> int" where
  "Index s c = (if c \<in> set s then int (length (takeWhile (\<lambda>x. x \<noteq> c) s)) else -1)"

text \<open>The string literal U+FEFF of the sources: the three bytes of the byte-order-mark.\<close>

definition bom :: string where
  "bom = [CHR 0xEF, CHR 0xBB, CHR 0xBF]"

section \<open>process/main.go: the substitution pass\<close>

record TranslationStats =
  TotalLines :: go_int
  Translated :: go_int
  Unchanged :: go_int
  Skipped :: go_int
  NotFound :: go_int

text \<open>
  \<open>processLine\<close> (lines 207 to 245). The Go function mutates \<open>stats\<close> through a
  pointer and returns the line to write; the model returns both.
\<close>

definition processLine ::
  "string \<Rightarrow> (string \<rightharpoonup> string) \<Rightarrow> TranslationStats \<Rightarrow> string \<times> TranslationStats" where
  "processLine line translationMap stats =
     (let trimmed = TrimSpace line in
      if trimmed = [] \<or> HasPrefix trimmed ''#'' \<or> HasPrefix trimmed '';'' then
        (line, stats\<lparr>Skipped := Skipped stats + 1\<rparr>)
      else
        let index = Index line (CHR ''='') in
        if index = -1 then
          (line, stats\<lparr>Unchanged := Unchanged stats + 1\<rparr>)
        else
          let key = TrimSpace (take (nat index) line) in
          if key = [] then
            (line, stats\<lparr>Unchanged := Unchanged stats + 1\<rparr>)
          else
            (case translationMap key of
               Some translatedValue \<Rightarrow>
                 (key @ ''='' @ translatedValue, stats\<lparr>Translated := Translated stats + 1\<rparr>)
             | None \<Rightarrow>
                 (line, stats\<lparr>NotFound := NotFound stats + 1,
                               Unchanged := Unchanged stats + 1\<rparr>)))"

text \<open>
  The scan loop of \<open>translateFile\<close> (lines 156 to 184). Its input is the sequence of
  lines the scanner yields; its output is the sequence of strings it hands to
  \<open>fmt.Fprintf\<close>, one for each line read, and the statistics. In the file each of
  these strings is followed by a newline (\<open>writeLines\<close> below): a string that holds
  a newline makes more than one line of the file, and a string that ends in a carriage
  return is read back without it. \<open>lineNumber\<close> is the value of the counter before
  the iteration.
\<close>

fun translateLoop ::
  "(string \<rightharpoonup> string) \<Rightarrow> go_int \<Rightarrow> string list \<Rightarrow> TranslationStats
     \<Rightarrow> string list \<times> TranslationStats" where
  "translateLoop translationMap lineNumber [] stats = ([], stats)"
| "translateLoop translationMap lineNumber (line # rest) stats =
     (let lineNumber = lineNumber + 1;
          stats = stats\<lparr>TotalLines := TotalLines stats + 1\<rparr>
      in if lineNumber = 1 \<and> HasPrefix line bom then
           (let (processedLine, stats) = processLine (TrimPrefix line bom) translationMap stats;
                (written, stats) = translateLoop translationMap lineNumber rest stats
            in ((bom @ processedLine) # written, stats))
         else
           (let (processedLine, stats) = processLine line translationMap stats;
                (written, stats) = translateLoop translationMap lineNumber rest stats
            in (processedLine # written, stats)))"

text \<open>The loop from its initial state: \<open>lineNumber := 0\<close> and the empty statistics.\<close>

definition translateLines ::
  "string list \<Rightarrow> (string \<rightharpoonup> string) \<Rightarrow> string list \<times> TranslationStats" where
  "translateLines lines translationMap =
     translateLoop translationMap 0 lines
       \<lparr>TotalLines = 0, Translated = 0, Unchanged = 0, Skipped = 0, NotFound = 0\<rparr>"

text \<open>
  \<open>translateFile\<close> (lines 135 to 204) and \<open>parseINIFile\<close> (lines 48 to 102) return
  an error when a call to the file system fails. Which calls fail is not in the text of
  the file: it is a parameter of the model, one flag for each call whose error the
  functions test. \<open>scanErr\<close> stands for \<open>scanner.Err()\<close> after the loop (a read
  error, or a line too long for the scanner); the lines are those scanned before it.
  On an error \<open>translateFile\<close> leaves the target file as it was.
\<close>

datatype runError = OpenFailed | CreateTempFailed | ReadFailed | FlushFailed | RenameFailed

record fileSystem =
  openErr :: bool
  createTempErr :: bool
  scanErr :: bool
  flushErr :: bool
  renameErr :: bool

definition noFaults :: fileSystem where
  "noFaults = \<lparr>openErr = False, createTempErr = False, scanErr = False,
                flushErr = False, renameErr = False\<rparr>"

definition translateFile ::
  "fileSystem \<Rightarrow> string list \<Rightarrow> (string \<rightharpoonup> string)
     \<Rightarrow> runError + string list \<times> TranslationStats" where
  "translateFile fs lines translationMap =
     (if openErr fs then Inl OpenFailed
      else if createTempErr fs then Inl CreateTempFailed
      else
        case translateLines lines translationMap of
          (written, stats) \<Rightarrow>
            if scanErr fs then Inl ReadFailed
            else if flushErr fs then Inl FlushFailed
            else if renameErr fs then Inl RenameFailed
            else Inr (written, stats))"

text \<open>
  The branch \<open>processLine\<close> takes for a line, as a value: its lines 208 to 231 with
  the same tests in the same order, the key kept where the function reaches the lookup.
\<close>

datatype lineClass = Blank | Comment | NoSeparator | EmptyKey | Valid string

definition applyClass :: "string \<Rightarrow> lineClass" where
  "applyClass line =
     (let trimmed = TrimSpace line in
      if trimmed = [] then Blank
      else if HasPrefix trimmed ''#'' \<or> HasPrefix trimmed '';'' then Comment
      else
        let index = Index line (CHR ''='') in
        if index = -1 then NoSeparator
        else
          let key = TrimSpace (take (nat index) line) in
          if key = [] then EmptyKey else Valid key)"

section \<open>init/main.go: the extraction pass\<close>

text \<open>
  The body of the scan loop of \<open>parseINIFile\<close> (lines 60 to 94) up to the store:
  \<open>None\<close> where the body ends in \<open>continue\<close>, the pair it stores otherwise.
  \<open>lineNumber\<close> is the counter after its increment. The warnings go to the
  console and are not part of the result.
\<close>

definition parseEntry :: "go_int \<Rightarrow> string \<Rightarrow> (string \<times> string) option" where
  "parseEntry lineNumber scanned =
     (let line = (if lineNumber = 1 \<and> HasPrefix scanned bom
                  then TrimPrefix scanned bom else scanned);
          line = TrimSpace line
      in if line = [] \<or> HasPrefix line ''#'' \<or> HasPrefix line '';'' then None
         else
           let index = Index line (CHR ''='') in
           if index = -1 then None
           else
             let key = TrimSpace (take (nat index) line);
                 value = TrimSpace (drop (nat (index + 1)) line)
             in if key = [] then None else Some (key, value))"

fun parseLoop :: "go_int \<Rightarrow> string list \<Rightarrow> (string \<rightharpoonup> string) \<Rightarrow> (string \<rightharpoonup> string)" where
  "parseLoop lineNumber [] entries = entries"
| "parseLoop lineNumber (line # rest) entries =
     (let lineNumber = lineNumber + 1 in
      case parseEntry lineNumber line of
        None \<Rightarrow> parseLoop lineNumber rest entries
      | Some (key, value) \<Rightarrow> parseLoop lineNumber rest (entries(key \<mapsto> value)))"

definition parseLines :: "string list \<Rightarrow> (string \<rightharpoonup> string)" where
  "parseLines lines = parseLoop 0 lines Map.empty"

definition parseINIFile :: "fileSystem \<Rightarrow> string list \<Rightarrow> runError + (string \<rightharpoonup> string)" where
  "parseINIFile fs lines =
     (if openErr fs then Inl OpenFailed
      else
        let entries = parseLines lines in
        if scanErr fs then Inl ReadFailed else Inr entries)"

text \<open>The pairs the loop stores, in scan order.\<close>

fun scanEntries :: "go_int \<Rightarrow> string list \<Rightarrow> (string \<times> string) list" where
  "scanEntries lineNumber [] = []"
| "scanEntries lineNumber (line # rest) =
     (let lineNumber = lineNumber + 1 in
      case parseEntry lineNumber line of
        None \<Rightarrow> scanEntries lineNumber rest
      | Some entry \<Rightarrow> entry # scanEntries lineNumber rest)"

text \<open>
  The branch the loop body takes for a line that has passed the byte-order-mark
  handling (lines 69 to 91), as a value.
\<close>

definition extractClass :: "string \<Rightarrow> lineClass" where
  "extractClass scanned =
     (let line = TrimSpace scanned in
      if line = [] then Blank
      else if HasPrefix line ''#'' \<or> HasPrefix line '';'' then Comment
      else
        let index = Index line (CHR ''='') in
        if index = -1 then NoSeparator
        else
          let key = TrimSpace (take (nat index) line) in
          if key = [] then EmptyKey else Valid key)"

section \<open>The detector of Simplified Chinese: encoding classifier and UTF-8 scan\<close>

type_synonym byte = "8 word"
type_synonym rune = "32 word"

subsection \<open>Package unicode/utf8\<close>

text \<open>
  The table \<open>first\<close> with \<open>acceptRanges\<close>: for a leading byte the length of its
  sequence and the range of the second byte; \<open>None\<close> for a byte that starts no
  sequence (0x80 to 0xC1 and 0xF5 to 0xFF).
\<close>

definition first :: "byte \<Rightarrow> (nat \<times> byte \<times> byte) option" where
  "first b =
     (if 0xC2 \<le> b \<and> b \<le> 0xDF then Some (2, 0x80, 0xBF)
      else if b = 0xE0 then Some (3, 0xA0, 0xBF)
      else if 0xE1 \<le> b \<and> b \<le> 0xEC then Some (3, 0x80, 0xBF)
      else if b = 0xED then Some (3, 0x80, 0x9F)
      else if 0xEE \<le> b \<and> b \<le> 0xEF then Some (3, 0x80, 0xBF)
      else if b = 0xF0 then Some (4, 0x90, 0xBF)
      else if 0xF1 \<le> b \<and> b \<le> 0xF3 then Some (4, 0x80, 0xBF)
      else if b = 0xF4 then Some (4, 0x80, 0x8F)
      else None)"

fun utf8_Valid :: "byte list \<Rightarrow> bool" where
  "utf8_Valid [] = True"
| "utf8_Valid (p0 # p) =
     (if p0 < 0x80 then utf8_Valid p
      else case first p0 of
        None \<Rightarrow> False
      | Some (sz, lo, hi) \<Rightarrow>
          if length (p0 # p) < sz then False
          else if p ! 0 < lo \<or> hi < p ! 0 then False
          else if sz = 2 then utf8_Valid (drop 1 p)
          else if p ! 1 < 0x80 \<or> 0xBF < p ! 1 then False
          else if sz = 3 then utf8_Valid (drop 2 p)
          else if p ! 2 < 0x80 \<or> 0xBF < p ! 2 then False
          else utf8_Valid (drop 3 p))"

text \<open>
  The conversion \<open>[]rune(s)\<close>: one rune for every well-formed sequence, U+FFFD for
  every byte that starts none.
\<close>

fun runes :: "byte list \<Rightarrow> rune list" where
  "runes [] = []"
| "runes (p0 # p) =
     (if p0 < 0x80 then ucast p0 # runes p
      else case first p0 of
        None \<Rightarrow> 0xFFFD # runes p
      | Some (sz, lo, hi) \<Rightarrow>
          if length (p0 # p) < sz then 0xFFFD # runes p
          else if p ! 0 < lo \<or> hi < p ! 0 then 0xFFFD # runes p
          else if sz \<le> 2 then
            (push_bit 6 (ucast (p0 AND 0x1F)) OR ucast (p ! 0 AND 0x3F)) # runes (drop 1 p)
          else if p ! 1 < 0x80 \<or> 0xBF < p ! 1 then 0xFFFD # runes p
          else if sz \<le> 3 then
            (push_bit 12 (ucast (p0 AND 0x0F)) OR push_bit 6 (ucast (p ! 0 AND 0x3F))
               OR ucast (p ! 1 AND 0x3F)) # runes (drop 2 p)
          else if p ! 2 < 0x80 \<or> 0xBF < p ! 2 then 0xFFFD # runes p
          else
            (push_bit 18 (ucast (p0 AND 0x07)) OR push_bit 12 (ucast (p ! 0 AND 0x3F))
               OR push_bit 6 (ucast (p ! 1 AND 0x3F)) OR ucast (p ! 2 AND 0x3F))
              # runes (drop 3 p))"

subsection \<open>Package bufio: the line scanner\<close>

definition dropCR :: "byte list \<Rightarrow> byte list" where
  "dropCR data = (if data \<noteq> [] \<and> last data = 0x0D then butlast data else data)"

definition MaxScanTokenSize :: nat where
  "MaxScanTokenSize = 64 * 1024"

text \<open>
  The tokens \<open>scanner.Scan\<close> yields with the split function \<open>ScanLines\<close>: the text
  up to each newline without a trailing carriage return, and a last line that has no
  newline. The scanner stops at a line that does not fit its buffer.
\<close>

function scanLines :: "byte list \<Rightarrow> byte list list" where
  "scanLines data =
     (if data = [] then []
      else
        let token = takeWhile (\<lambda>b. b \<noteq> 0x0A) data in
        if MaxScanTokenSize \<le> length token then []
        else dropCR token # scanLines (drop (length token + 1) data))"
  by pat_completeness auto
termination
  by (relation "measure length") auto

subsection \<open>The decoders of package golang.org/x/text/encoding\<close>

text \<open>
  \<open>decoder.Transform(dst, src, atEOF)\<close> returns the number of bytes written, the
  number of bytes read and an error. The decoders live outside the repository, behind
  the interface \<open>transform.Transformer\<close>; the classifier takes them as parameters. Of
  \<open>dst\<close> only the length matters to the result.
\<close>

datatype transformError = ErrShortDst | ErrShortSrc

type_synonym Transformer = "nat \<Rightarrow> byte list \<Rightarrow> bool \<Rightarrow> nat \<times> nat \<times> transformError option"

text \<open>
  What package encoding documents for its decoders: source bytes that are not of the
  encoding do not result in an error, each byte that cannot be transcoded is written as
  U+FFFD. So with a destination three times as long as the source and \<open>atEOF\<close> set, the
  error is nil, and something is written exactly when the source is not empty.
\<close>

definition replacing :: "Transformer \<Rightarrow> bool" where
  "replacing decoder =
     (\<forall>src. snd (snd (decoder (length src * 3) src True)) = None \<and>
            (0 < fst (decoder (length src * 3) src True)) = (src \<noteq> []))"

text \<open>
  A decoder accepts a buffer when \<open>Transform\<close> returns no error and writes
  something: what \<open>isBIG5Encoded\<close> and \<open>isGBKEncoded\<close> ask of its result.
\<close>

definition accepts :: "Transformer \<Rightarrow> byte list \<Rightarrow> bool" where
  "accepts decoder content =
     (case decoder (length content * 3) content True of
        (n, nSrc, err) \<Rightarrow> err = None \<and> 0 < n)"

text \<open>
  The smallest decoder of the documented kind (\<open>replacing\<close>): a byte below 0x80 is
  copied, any other byte is written as the three bytes of U+FFFD.
\<close>

fun replaceLoop :: "nat \<Rightarrow> byte list \<Rightarrow> nat \<Rightarrow> nat \<Rightarrow> nat \<times> nat \<times> transformError option" where
  "replaceLoop dstLen [] nDst nSrc = (nDst, nSrc, None)"
| "replaceLoop dstLen (c0 # src) nDst nSrc =
     (let w = (if c0 < 0x80 then 1 else 3) in
      if dstLen < nDst + w then (nDst, nSrc, Some ErrShortDst)
      else replaceLoop dstLen src (nDst + w) (nSrc + 1))"

definition replacementDecoder :: Transformer where
  "replacementDecoder dstLen src atEOF = replaceLoop dstLen src 0 0"

subsection \<open>The encoding classifier\<close>

text \<open>
  The loop of \<open>isBIG5Encoded\<close> (lines 258 to 266) from index \<open>i\<close>; \<open>n\<close> is the
  number of bytes the decoder wrote.
\<close>

function big5Ranges :: "byte list \<Rightarrow> nat \<Rightarrow> nat \<Rightarrow> bool" where
  "big5Ranges content n i =
     (if int i < int (length content) - 1 then
        if 0xA1 \<le> content ! i \<and> content ! i \<le> 0xF9 then
          if (0x40 \<le> content ! (i + 1) \<and> content ! (i + 1) \<le> 0x7E) \<or>
             (0xA1 \<le> content ! (i + 1) \<and> content ! (i + 1) \<le> 0xFE)
          then 0 < n
          else big5Ranges content n (i + 1)
        else big5Ranges content n (i + 1)
      else False)"
  by pat_completeness auto
termination
  by (relation "measure (\<lambda>(content, n, i). length content - i)") auto

definition isBIG5Encoded :: "Transformer \<Rightarrow> byte list \<Rightarrow> bool" where
  "isBIG5Encoded decoder content =
     (case decoder (length content * 3) content True of
        (n, nSrc, err) \<Rightarrow> if err \<noteq> None then False else big5Ranges content n 0)"

function gbkRanges :: "byte list \<Rightarrow> nat \<Rightarrow> nat \<Rightarrow> bool" where
  "gbkRanges content n i =
     (if int i < int (length content) - 1 then
        if 0x81 \<le> content ! i \<and> content ! i \<le> 0xFE then
          if 0x40 \<le> content ! (i + 1) \<and> content ! (i + 1) \<le> 0xFE
          then 0 < n
          else gbkRanges content n (i + 1)
        else gbkRanges content n (i + 1)
      else False)"
  by pat_completeness auto
termination
  by (relation "measure (\<lambda>(content, n, i). length content - i)") auto

definition isGBKEncoded :: "Transformer \<Rightarrow> byte list \<Rightarrow> bool" where
  "isGBKEncoded decoder content =
     (case decoder (length content * 3) content True of
        (n, nSrc, err) \<Rightarrow> if err \<noteq> None then False else gbkRanges content n 0)"

text \<open>
  \<open>detectFileEncoding\<close> (lines 207 to 247); \<open>big5\<close> and \<open>gbk\<close> are the decoders
  \<open>traditionalchinese.Big5.NewDecoder()\<close> and \<open>simplifiedchinese.GBK.NewDecoder()\<close>.
\<close>

definition hasBOM :: "byte list \<Rightarrow> bool" where
  "hasBOM content =
     (3 \<le> length content \<and> content ! 0 = 0xEF \<and> content ! 1 = 0xBB \<and> content ! 2 = 0xBF)"

definition hasGBKRange :: "byte list \<Rightarrow> bool" where
  "hasGBKRange content = list_ex (\<lambda>b. 0x81 \<le> b \<and> b \<le> 0xFE) content"

definition hasBIG5Range :: "byte list \<Rightarrow> bool" where
  "hasBIG5Range content = list_ex (\<lambda>b. 0xA1 \<le> b \<and> b \<le> 0xF9) content"

definition detectFileEncoding :: "Transformer \<Rightarrow> Transformer \<Rightarrow> byte list \<Rightarrow> string" where
  "detectFileEncoding big5 gbk content =
     (if hasBOM content then ''UTF-8''
      else if utf8_Valid content \<and> \<not> hasGBKRange content \<and> \<not> hasBIG5Range content
        then ''UTF-8''
      else if isBIG5Encoded big5 content then ''BIG5''
      else if isGBKEncoded gbk content then ''GB2312/GBK''
      else ''UTF-8'')"

subsection \<open>The scan of UTF-8 text\<close>

text \<open>The table \<open>simplifiedOnly\<close> of \<open>scanUTF8ForSimplified\<close>.\<close>

definition simplifiedOnly :: "rune \<Rightarrow> bool" where
  "simplifiedOnly r =
     (r \<in> set [0x56FD, 0x95E8, 0x957F, 0x5F00, 0x8F66, 0x8D1D, 0x89C1, 0x6C14, 0x65E0, 0x4E13])"

text \<open>A row of the table the scan prints: line number, character, context.\<close>

type_synonym finding = "go_int \<times> rune \<times> rune list"

definition flagRune :: "go_int \<Rightarrow> rune list \<Rightarrow> nat \<Rightarrow> finding list" where
  "flagRune lineNum rs i =
     (if simplifiedOnly (rs ! i) then
        let start = (if int i - 15 < 0 then 0 else i - 15);
            stop = (if length rs < i + 15 then length rs else i + 15)
        in [(lineNum, rs ! i, take (stop - start) (drop start rs))]
      else [])"

fun scanTokens :: "go_int \<Rightarrow> byte list list \<Rightarrow> finding list" where
  "scanTokens lineNum [] = []"
| "scanTokens lineNum (line # rest) =
     (let lineNum = lineNum + 1;
          rs = runes line
      in concat (map (flagRune lineNum rs) [0..<length rs]) @ scanTokens lineNum rest)"

definition scanUTF8ForSimplified :: "byte list \<Rightarrow> finding list" where
  "scanUTF8ForSimplified content = scanTokens 0 (scanLines content)"

subsection \<open>The scan the program runs\<close>

text \<open>
  \<open>main\<close> of the detector (lines 179 to 203) chooses the scan by the verdict. Of the
  four scans only \<open>scanUTF8ForSimplified\<close> is modelled with its result; the others
  are named.
\<close>

datatype scanRun =
    GBKScan
  | UTF8Scan "finding list"
  | BIG5Scan
  | MixedScan

definition detectorMain :: "Transformer \<Rightarrow> Transformer \<Rightarrow> byte list \<Rightarrow> scanRun" where
  "detectorMain big5 gbk content =
     (let encoding = detectFileEncoding big5 gbk content in
      if encoding = ''GB2312/GBK'' then GBKScan
      else if encoding = ''UTF-8'' then UTF8Scan (scanUTF8ForSimplified content)
      else if encoding = ''BIG5'' then BIG5Scan
      else MixedScan)"

subsection \<open>The buffer and the rule set the specification names\<close>

text \<open>
  The text \<open>ASD_Country=\<close>, the characters U+56FD and U+5BB6 and a newline, encoded
  as UTF-8 with no byte-order-mark: 19 bytes.
\<close>

definition sampleBuffer :: "byte list" where
  "sampleBuffer =
     [0x41, 0x53, 0x44, 0x5F, 0x43, 0x6F, 0x75, 0x6E, 0x74, 0x72, 0x79, 0x3D,
      0xE5, 0x9B, 0xBD, 0xE5, 0xAE, 0xB6, 0x0A]"

text \<open>
  The Traditional-Chinese rule set in the words of the specification, not of the
  code: a lead byte 0xA1 to 0xF9 followed by a trail byte 0x40 to 0x7E or 0xA1 to 0xFE
  is a valid two-byte sequence; a byte below 0x80 stands for itself; any other byte is
  an error. The result is the number of two-byte sequences, \<open>None\<close> on an error.
\<close>

fun big5RuleSet :: "byte list \<Rightarrow> nat option" where
  "big5RuleSet [] = Some 0"
| "big5RuleSet [b] = (if b < 0x80 then Some 0 else None)"
| "big5RuleSet (b # c # rest) =
     (if b < 0x80 then big5RuleSet (c # rest)
      else if 0xA1 \<le> b \<and> b \<le> 0xF9 \<and> ((0x40 \<le> c \<and> c \<le> 0x7E) \<or> (0xA1 \<le> c \<and> c \<le> 0xFE))
        then map_option Suc (big5RuleSet rest)
      else None)"

section \<open>process/main.go: the file the substitution pass reads and writes\<close>

text \<open>
  \<open>translateFile\<close> reads the target file through \<open>bufio.NewScanner\<close> (line 152,
  the split function \<open>ScanLines\<close>) and takes each token as a string with
  \<open>scanner.Text()\<close>. \<open>dropCRText\<close> and \<open>scanText\<close> are \<open>dropCR\<close> and
  \<open>scanLines\<close> above on a Go string; the second component of \<open>scanText\<close> says
  whether the scanner stopped at a line that does not fit its buffer, which is one of
  the errors \<open>scanner.Err()\<close> reports (line 186).
\<close>

definition dropCRText :: "string \<Rightarrow> string" where
  "dropCRText data = (if data \<noteq> [] \<and> last data = CHR 0x0D then butlast data else data)"

function scanText :: "string \<Rightarrow> string list \<times> bool" where
  "scanText data =
     (if data = [] then ([], False)
      else
        let token = takeWhile (\<lambda>c. c \<noteq> CHR 0x0A) data in
        if MaxScanTokenSize \<le> length token then ([], True)
        else
          case scanText (drop (length token + 1) data) of
            (tokens, tooLong) \<Rightarrow> (dropCRText token # tokens, tooLong))"
  by pat_completeness auto
termination
  by (relation "measure length") auto

text \<open>
  What the calls of \<open>fmt.Fprintf\<close> in the loop (lines 172 and 178, the format is
  the string and a newline) leave in the temporary file once the writer is flushed: each
  string followed by a newline.
\<close>

definition writeLines :: "string list \<Rightarrow> string" where
  "writeLines written = concat (map (\<lambda>processedLine. processedLine @ [CHR 0x0A]) written)"

text \<open>
  \<open>translateFile\<close> on the content of the target file: the lines are those the scanner
  yields from the content, \<open>scanner.Err()\<close> is an error of the file system or a line
  too long, and the result is the content of the file after the rename (line 199). On
  an error the target file is left as it was.
\<close>

definition translateFileBytes ::
  "fileSystem \<Rightarrow> string \<Rightarrow> (string \<rightharpoonup> string) \<Rightarrow> runError + string \<times> TranslationStats" where
  "translateFileBytes fs content translationMap =
     (case scanText content of
        (lines, tooLong) \<Rightarrow>
          (case translateFile (fs\<lparr>scanErr := scanErr fs \<or> tooLong\<rparr>) lines translationMap of
             Inl e \<Rightarrow> Inl e
           | Inr (written, stats) \<Rightarrow> Inr (writeLines written, stats)))"

section \<open>Trimming and the separator\<close>

declare dropSeqs.simps [simp del]

lemma prefix_sep:
  assumes "c \<notin> set e"
  shows "prefix e (x @ c # y) = prefix e x"
proof
  assume "prefix e (x @ c # y)"
  then consider "prefix e x" | us where "e = x @ us" "prefix us (c # y)"
    by (auto simp: prefix_append)
  then show "prefix e x"
  proof cases
    case 1 then show ?thesis .
  next
    case 2
    with assms have "us = []" by (cases us) auto
    with 2 show ?thesis by simp
  qed
next
  assume "prefix e x" then show "prefix e (x @ c # y)" by (rule prefix_prefix)
qed

lemma dropSeqs_None: "find (\<lambda>e. prefix e s) es = None \<Longrightarrow> dropSeqs es s = s"
  by (subst dropSeqs.simps) simp

lemma dropSeqs_Some:
  "find (\<lambda>e. prefix e s) es = Some e \<Longrightarrow> e \<noteq> [] \<Longrightarrow> dropSeqs es s = dropSeqs es (drop (length e) s)"
  by (subst dropSeqs.simps) simp

lemma dropSeqs_Nil: "find (\<lambda>e. prefix e s) es = Some [] \<Longrightarrow> dropSeqs es s = s"
  by (subst dropSeqs.simps) simp

lemma dropSeqs_sep:
  assumes "\<forall>e\<in>set es. c \<notin> set e"
  shows "dropSeqs es (x @ c # y) = dropSeqs es x @ c # y"
  using assms
proof (induction es x rule: dropSeqs.induct)
  case (1 es s)
  have "\<And>e. e \<in> set es \<Longrightarrow> prefix e (s @ c # y) = prefix e s"
    using "1.prems" by (simp add: prefix_sep)
  then have eq: "find (\<lambda>e. prefix e (s @ c # y)) es = find (\<lambda>e. prefix e s) es"
    by (intro find_cong) auto
  show ?case
  proof (cases "find (\<lambda>e. prefix e s) es")
    case None
    with eq show ?thesis by (simp add: dropSeqs_None)
  next
    case (Some e)
    show ?thesis
    proof (cases "e = []")
      case True
      with Some eq show ?thesis by (simp add: dropSeqs_Nil)
    next
      case False
      from Some have pre: "prefix e s" by (auto simp: find_Some_iff)
      then obtain s' where s: "s = e @ s'" by (auto simp: prefix_def)
      have "dropSeqs es (s @ c # y) = dropSeqs es (drop (length e) (s @ c # y))"
        using Some eq False by (simp add: dropSeqs_Some)
      also have "drop (length e) (s @ c # y) = drop (length e) s @ c # y"
        using s by simp
      also have "dropSeqs es (drop (length e) s @ c # y) = dropSeqs es (drop (length e) s) @ c # y"
        using "1.IH" [OF Some False "1.prems"] .
      also have "dropSeqs es (drop (length e) s) = dropSeqs es s"
        using Some False by (simp add: dropSeqs_Some)
      finally show ?thesis .
    qed
  qed
qed

lemma dropSeqs_suffix: "suffix (dropSeqs es s) s"
proof (induction es s rule: dropSeqs.induct)
  case (1 es s)
  show ?case
  proof (cases "find (\<lambda>e. prefix e s) es")
    case None
    then show ?thesis by (simp add: dropSeqs_None)
  next
    case (Some e)
    show ?thesis
    proof (cases "e = []")
      case True
      with Some show ?thesis by (simp add: dropSeqs_Nil)
    next
      case False
      have "suffix (dropSeqs es (drop (length e) s)) (drop (length e) s)"
        using "1.IH" [OF Some False] .
      moreover have "suffix (drop (length e) s) s" by (rule suffix_drop)
      ultimately have "suffix (dropSeqs es (drop (length e) s)) s"
        by (rule suffix_order.trans)
      then show ?thesis using Some False by (simp add: dropSeqs_Some)
    qed
  qed
qed

lemma dropSeqs_fixed:
  assumes "[] \<notin> set es"
  shows "find (\<lambda>e. prefix e (dropSeqs es s)) es = None"
  using assms
proof (induction es s rule: dropSeqs.induct)
  case (1 es s)
  show ?case
  proof (cases "find (\<lambda>e. prefix e s) es")
    case None
    then show ?thesis by (simp add: dropSeqs_None)
  next
    case (Some e)
    then have "e \<in> set es" by (auto simp: find_Some_iff in_set_conv_nth)
    with "1.prems" have ne: "e \<noteq> []" by auto
    from "1.IH" [OF Some ne "1.prems"] Some ne show ?thesis
      by (simp add: dropSeqs_Some)
  qed
qed

lemma dropSeqs_idem: "[] \<notin> set es \<Longrightarrow> dropSeqs es (dropSeqs es s) = dropSeqs es s"
  by (simp add: dropSeqs_None dropSeqs_fixed)

lemma dropSeqs_no_prefix:
  assumes "[] \<notin> set es" "e \<in> set es"
  shows "\<not> prefix e (dropSeqs es s)"
  using dropSeqs_fixed [OF assms(1), of s] assms(2) by (auto simp: find_None_iff)

lemma dropSeqs_eq_self:
  "\<forall>e\<in>set es. \<not> prefix e s \<Longrightarrow> dropSeqs es s = s"
  by (simp add: dropSeqs_None find_None_iff)

lemma prefix_takeWhile_sep:
  assumes "c \<notin> set e"
  shows "prefix e (takeWhile (\<lambda>x. x \<noteq> c) s) = prefix e s"
proof (cases "c \<in> set s")
  case False
  then have "takeWhile (\<lambda>x. x \<noteq> c) s = s" by (auto simp: takeWhile_eq_all_conv)
  then show ?thesis by (simp only:)
next
  case True
  then have "dropWhile (\<lambda>x. x \<noteq> c) s \<noteq> []" by (auto simp: dropWhile_eq_Nil_conv)
  moreover have "hd (dropWhile (\<lambda>x. x \<noteq> c) s) = c"
    using hd_dropWhile [OF calculation] by simp
  ultimately obtain y where "dropWhile (\<lambda>x. x \<noteq> c) s = c # y"
    by (cases "dropWhile (\<lambda>x. x \<noteq> c) s") auto
  then have "s = takeWhile (\<lambda>x. x \<noteq> c) s @ c # y"
    by (metis takeWhile_dropWhile_id)
  then show ?thesis using prefix_sep [OF assms, of "takeWhile (\<lambda>x. x \<noteq> c) s" y] by simp
qed

lemma dropSeqs_takeWhile:
  assumes "\<forall>e\<in>set es. c \<notin> set e"
  shows "dropSeqs es (takeWhile (\<lambda>x. x \<noteq> c) s) = takeWhile (\<lambda>x. x \<noteq> c) (dropSeqs es s)"
  using assms
proof (induction es s rule: dropSeqs.induct)
  case (1 es s)
  let ?P = "\<lambda>x. x \<noteq> c"
  have "\<And>e. e \<in> set es \<Longrightarrow> prefix e (takeWhile ?P s) = prefix e s"
    using "1.prems" by (simp add: prefix_takeWhile_sep)
  then have eq: "find (\<lambda>e. prefix e (takeWhile ?P s)) es = find (\<lambda>e. prefix e s) es"
    by (intro find_cong) auto
  show ?case
  proof (cases "find (\<lambda>e. prefix e s) es")
    case None
    with eq show ?thesis by (simp add: dropSeqs_None)
  next
    case (Some e)
    show ?thesis
    proof (cases "e = []")
      case True
      with Some eq show ?thesis by (simp add: dropSeqs_Nil)
    next
      case False
      from Some have "prefix e s" "e \<in> set es" by (auto simp: find_Some_iff in_set_conv_nth)
      then obtain s' where s: "s = e @ s'" by (auto simp: prefix_def)
      have all: "\<forall>x\<in>set e. x \<noteq> c" using \<open>e \<in> set es\<close> "1.prems" by auto
      have tw: "takeWhile ?P s = e @ takeWhile ?P s'"
        using all s by (simp add: takeWhile_append2)
      have "dropSeqs es (takeWhile ?P s) = dropSeqs es (drop (length e) (takeWhile ?P s))"
        using Some eq False by (simp add: dropSeqs_Some)
      also have "drop (length e) (takeWhile ?P s) = takeWhile ?P (drop (length e) s)"
        using tw s by simp
      also have "dropSeqs es (takeWhile ?P (drop (length e) s)) = takeWhile ?P (dropSeqs es (drop (length e) s))"
        using "1.IH" [OF Some False "1.prems"] .
      also have "dropSeqs es (drop (length e) s) = dropSeqs es s"
        using Some False by (simp add: dropSeqs_Some)
      finally show ?thesis .
    qed
  qed
qed

lemma dropSeqs_mem:
  assumes "\<forall>e\<in>set es. c \<notin> set e"
  shows "(c \<in> set (dropSeqs es s)) = (c \<in> set s)"
  using assms
proof (induction es s rule: dropSeqs.induct)
  case (1 es s)
  show ?case
  proof (cases "find (\<lambda>e. prefix e s) es")
    case None
    then show ?thesis by (simp add: dropSeqs_None)
  next
    case (Some e)
    show ?thesis
    proof (cases "e = []")
      case True
      with Some show ?thesis by (simp add: dropSeqs_Nil)
    next
      case False
      from Some have "prefix e s" "e \<in> set es" by (auto simp: find_Some_iff in_set_conv_nth)
      then obtain s' where s: "s = e @ s'" by (auto simp: prefix_def)
      have "c \<notin> set e" using \<open>e \<in> set es\<close> "1.prems" by auto
      then have "(c \<in> set (drop (length e) s)) = (c \<in> set s)" using s by simp
      with "1.IH" [OF Some False "1.prems"] Some False show ?thesis
        by (simp add: dropSeqs_Some)
    qed
  qed
qed

section \<open>The substitution pass: counters, length and the byte-order-mark\<close>

lemmas string_eval = TrimSpace_def TrimLeftSpace_def TrimRightSpace_def spaceSeqs_def
  dropSeqs.simps HasPrefix_def TrimPrefix_def Index_def bom_def

lemma processLine_cases:
  "processLine line m st =
     (case applyClass line of
        Blank \<Rightarrow> (line, st\<lparr>Skipped := Skipped st + 1\<rparr>)
      | Comment \<Rightarrow> (line, st\<lparr>Skipped := Skipped st + 1\<rparr>)
      | NoSeparator \<Rightarrow> (line, st\<lparr>Unchanged := Unchanged st + 1\<rparr>)
      | EmptyKey \<Rightarrow> (line, st\<lparr>Unchanged := Unchanged st + 1\<rparr>)
      | Valid key \<Rightarrow>
          (case m key of
             Some v \<Rightarrow> (key @ ''='' @ v, st\<lparr>Translated := Translated st + 1\<rparr>)
           | None \<Rightarrow> (line, st\<lparr>NotFound := NotFound st + 1, Unchanged := Unchanged st + 1\<rparr>)))"
  by (simp add: processLine_def applyClass_def Let_def)

lemma processLine_counts:
  "\<exists>a b c d :: nat. a + b + c = 1 \<and> d \<le> b \<and>
     TotalLines (snd (processLine line m st)) = TotalLines st \<and>
     Translated (snd (processLine line m st)) = Translated st + of_nat a \<and>
     Unchanged (snd (processLine line m st)) = Unchanged st + of_nat b \<and>
     Skipped (snd (processLine line m st)) = Skipped st + of_nat c \<and>
     NotFound (snd (processLine line m st)) = NotFound st + of_nat d"
proof (cases "applyClass line")
  case Blank
  then show ?thesis
    by (intro exI [of _ 0] exI [of _ 1]) (simp add: processLine_cases)
next
  case Comment
  then show ?thesis
    by (intro exI [of _ 0] exI [of _ 1]) (simp add: processLine_cases)
next
  case NoSeparator
  then show ?thesis
    by (intro exI [of _ 0] exI [of _ 1] exI [of _ 0] exI [of _ 0]) (simp add: processLine_cases)
next
  case EmptyKey
  then show ?thesis
    by (intro exI [of _ 0] exI [of _ 1] exI [of _ 0] exI [of _ 0]) (simp add: processLine_cases)
next
  case (Valid key)
  show ?thesis
  proof (cases "m key")
    case None
    with Valid show ?thesis
      by (intro exI [of _ 0] exI [of _ 1] exI [of _ 0] exI [of _ 1]) (simp add: processLine_cases)
  next
    case (Some v)
    with Valid show ?thesis
      by (intro exI [of _ 1] exI [of _ 0] exI [of _ 0] exI [of _ 0]) (simp add: processLine_cases)
  qed
qed

lemma translateLoop_Cons:
  "translateLoop m n (line # rest) st =
     (let r = (if n + 1 = 1 \<and> HasPrefix line bom
               then processLine (TrimPrefix line bom) m (st\<lparr>TotalLines := TotalLines st + 1\<rparr>)
               else processLine line m (st\<lparr>TotalLines := TotalLines st + 1\<rparr>));
          t = translateLoop m (n + 1) rest (snd r)
      in ((if n + 1 = 1 \<and> HasPrefix line bom then bom @ fst r else fst r) # fst t, snd t))"
  by (simp add: Let_def split: prod.splits)

lemma length_translateLoop: "length (fst (translateLoop m n ls st)) = length ls"
proof (induction ls arbitrary: n st)
  case Nil
  show ?case by simp
next
  case (Cons line rest)
  then show ?case by (simp add: translateLoop_Cons Let_def del: translateLoop.simps)
qed

lemma translateLoop_counts:
  "\<exists>a b c d :: nat. a + b + c = length ls \<and> d \<le> b \<and>
     TotalLines (snd (translateLoop m n ls st)) = TotalLines st + of_nat (length ls) \<and>
     Translated (snd (translateLoop m n ls st)) = Translated st + of_nat a \<and>
     Unchanged (snd (translateLoop m n ls st)) = Unchanged st + of_nat b \<and>
     Skipped (snd (translateLoop m n ls st)) = Skipped st + of_nat c \<and>
     NotFound (snd (translateLoop m n ls st)) = NotFound st + of_nat d"
proof (induction ls arbitrary: n st)
  case Nil
  show ?case by (intro exI [of _ 0]) simp
next
  case (Cons line rest)
  define st1 where "st1 = st\<lparr>TotalLines := TotalLines st + 1\<rparr>"
  define l where "l = (if n + 1 = 1 \<and> HasPrefix line bom then TrimPrefix line bom else line)"
  define st2 where "st2 = snd (processLine l m st1)"
  have loop: "snd (translateLoop m n (line # rest) st) = snd (translateLoop m (n + 1) rest st2)"
    by (simp add: translateLoop_Cons Let_def st2_def l_def st1_def del: translateLoop.simps)
  obtain a b c d :: nat where
    p: "a + b + c = 1" "d \<le> b" "TotalLines st2 = TotalLines st1"
      "Translated st2 = Translated st1 + of_nat a" "Unchanged st2 = Unchanged st1 + of_nat b"
      "Skipped st2 = Skipped st1 + of_nat c" "NotFound st2 = NotFound st1 + of_nat d"
    unfolding st2_def using processLine_counts [of l m st1] by blast
  obtain a' b' c' d' :: nat where
    q: "a' + b' + c' = length rest" "d' \<le> b'"
      "TotalLines (snd (translateLoop m (n + 1) rest st2)) = TotalLines st2 + of_nat (length rest)"
      "Translated (snd (translateLoop m (n + 1) rest st2)) = Translated st2 + of_nat a'"
      "Unchanged (snd (translateLoop m (n + 1) rest st2)) = Unchanged st2 + of_nat b'"
      "Skipped (snd (translateLoop m (n + 1) rest st2)) = Skipped st2 + of_nat c'"
      "NotFound (snd (translateLoop m (n + 1) rest st2)) = NotFound st2 + of_nat d'"
    using Cons.IH [of "n + 1" st2] by blast
  show ?case
    unfolding loop
    by (intro exI [of _ "a + a'"] exI [of _ "b + b'"] exI [of _ "c + c'"] exI [of _ "d + d'"])
      (use p q in \<open>simp add: st1_def\<close>)
qed

lemma sint_of_nat_small: "n < 2 ^ 63 \<Longrightarrow> sint (of_nat n :: 64 word) = int n"
proof -
  assume "n < 2 ^ 63"
  then have "int n < 2 ^ 63" by (metis of_nat_less_iff of_nat_numeral of_nat_power)
  then have "signed_take_bit 63 (int n) = int n"
    by (intro signed_take_bit_int_eq_self) simp_all
  then show ?thesis by (simp add: signed_of_nat)
qed

lemma translateLoop_append:
  "snd (translateLoop m n (xs @ ys) st) =
     snd (translateLoop m (n + of_nat (length xs)) ys (snd (translateLoop m n xs st)))"
proof (induction xs arbitrary: n st)
  case Nil
  show ?case by simp
next
  case (Cons x xs)
  show ?case
    by (simp add: translateLoop_Cons Let_def Cons.IH ac_simps del: translateLoop.simps)
qed

lemma translateFile_Inr:
  "(translateFile fs lines m = Inr (written, stats)) =
     (\<not> openErr fs \<and> \<not> createTempErr fs \<and> \<not> scanErr fs \<and> \<not> flushErr fs \<and> \<not> renameErr fs \<and>
      translateLines lines m = (written, stats))"
  by (auto simp: translateFile_def split: prod.splits)

lemma translateFile_noFaults: "translateFile noFaults lines m = Inr (translateLines lines m)"
  by (simp add: translateFile_def noFaults_def split: prod.splits)

text \<open>A run ends in an error only when a call to the file system fails.\<close>

lemma translateFile_Inl:
  "translateFile fs lines m = Inl e \<Longrightarrow>
     openErr fs \<or> createTempErr fs \<or> scanErr fs \<or> flushErr fs \<or> renameErr fs"
  by (auto simp: translateFile_def split: prod.splits if_splits)

lemma translateLines_stats:
  "TotalLines (snd (translateLines lines m)) =
     Translated (snd (translateLines lines m)) + Unchanged (snd (translateLines lines m))
       + Skipped (snd (translateLines lines m)) \<and>
   (length lines < 2 ^ 63 \<longrightarrow>
      0 \<le> sint (NotFound (snd (translateLines lines m))) \<and>
      sint (NotFound (snd (translateLines lines m))) \<le> sint (Unchanged (snd (translateLines lines m))))"
proof -
  define st0 where
    "st0 = \<lparr>TotalLines = 0, Translated = 0, Unchanged = 0, Skipped = 0, NotFound = 0 :: go_int\<rparr>"
  define s where "s = snd (translateLoop m 0 lines st0)"
  have s: "snd (translateLines lines m) = s"
    by (simp add: translateLines_def s_def st0_def)
  obtain a b c d :: nat where
    q: "a + b + c = length lines" "d \<le> b"
      "TotalLines s = of_nat (length lines)" "Translated s = of_nat a"
      "Unchanged s = of_nat b" "Skipped s = of_nat c" "NotFound s = of_nat d"
    using translateLoop_counts [of lines m 0 st0] unfolding s_def st0_def by auto
  have "TotalLines s = Translated s + Unchanged s + Skipped s"
    using q by (metis of_nat_add)
  moreover have "0 \<le> sint (NotFound s) \<and> sint (NotFound s) \<le> sint (Unchanged s)"
    if "length lines < 2 ^ 63"
  proof -
    from that q have "b < 2 ^ 63" "d < 2 ^ 63" by linarith+
    then show ?thesis using q by (simp add: sint_of_nat_small)
  qed
  ultimately show ?thesis unfolding s by blast
qed

text \<open>
  Claim C4. After the substitution pass the statistics satisfy
  \<open>TotalLines = Translated + Unchanged + Skipped\<close>, for every sequence of lines and
  every map, and so does the state of the loop after each line: after \<open>k\<close> lines it
  is the state \<open>translateLines\<close> ends in on the first \<open>k\<close> lines, from which the
  loop goes on (\<open>translateLoop_append\<close>). The counters are 64-bit and wrap around, and
  the identity holds all the same. \<open>NotFound\<close> is a part of \<open>Unchanged\<close>: a line adds
  to \<open>NotFound\<close> only together with \<open>Unchanged\<close> (\<open>processLine_counts\<close>), and below
  \<open>2 ^ 63\<close> lines, where no counter wraps around, it is between 0 and \<open>Unchanged\<close>.
\<close>

theorem stats_identity:
  assumes "translateFile fs lines m = Inr (written, stats)"
  shows "TotalLines stats = Translated stats + Unchanged stats + Skipped stats \<and>
         (\<forall>k. TotalLines (snd (translateLines (take k lines) m)) =
                Translated (snd (translateLines (take k lines) m))
                  + Unchanged (snd (translateLines (take k lines) m))
                  + Skipped (snd (translateLines (take k lines) m))) \<and>
         (length lines < 2 ^ 63 \<longrightarrow>
            0 \<le> sint (NotFound stats) \<and> sint (NotFound stats) \<le> sint (Unchanged stats))"
proof -
  from assms have "snd (translateLines lines m) = stats" by (simp add: translateFile_Inr)
  with translateLines_stats [of lines m]
  have "TotalLines stats = Translated stats + Unchanged stats + Skipped stats"
    and "length lines < 2 ^ 63 \<longrightarrow>
            0 \<le> sint (NotFound stats) \<and> sint (NotFound stats) \<le> sint (Unchanged stats)"
    by simp_all
  moreover have "TotalLines (snd (translateLines (take k lines) m)) =
                Translated (snd (translateLines (take k lines) m))
                  + Unchanged (snd (translateLines (take k lines) m))
                  + Skipped (snd (translateLines (take k lines) m))" for k
    using translateLines_stats [of "take k lines" m] by blast
  ultimately show ?thesis by blast
qed

theorem stats_identity_witness:
  "translateFile noFaults [''K1=V1'', ''K2=V2'', ''# c''] [''K1'' \<mapsto> ''X1''] =
     Inr ([''K1=X1'', ''K2=V2'', ''# c''],
          \<lparr>TotalLines = 3, Translated = 1, Unchanged = 1, Skipped = 1, NotFound = 1\<rparr>) \<and>
   length [''K1=V1'', ''K2=V2'', ''# c''] < (2::nat) ^ 63 \<and>
   sint (NotFound \<lparr>TotalLines = 3, Translated = 1, Unchanged = 1, Skipped = 1, NotFound = 1 :: go_int\<rparr>) \<le>
   sint (Unchanged \<lparr>TotalLines = 3, Translated = 1, Unchanged = 1, Skipped = 1, NotFound = 1 :: go_int\<rparr>)"
proof -
  have e: "translateFile noFaults [''K1=V1'', ''K2=V2'', ''# c''] [''K1'' \<mapsto> ''X1''] =
     Inr ([''K1=X1'', ''K2=V2'', ''# c''],
          \<lparr>TotalLines = 3, Translated = 1, Unchanged = 1, Skipped = 1, NotFound = 1\<rparr>)"
    by (simp add: translateFile_noFaults translateLines_def processLine_def string_eval Let_def)
  have l: "length [''K1=V1'', ''K2=V2'', ''# c''] < (2::nat) ^ 63" by simp
  from stats_identity [OF e] l e show ?thesis by blast
qed

lemma translateLines_bom:
  assumes "HasPrefix line bom"
  shows "length (fst (translateLines (line # rest) m)) = Suc (length rest) \<and>
         hd (fst (translateLines (line # rest) m)) =
           bom @ fst (processLine (TrimPrefix line bom) m
                        \<lparr>TotalLines = 1, Translated = 0, Unchanged = 0, Skipped = 0, NotFound = 0\<rparr>)"
  using assms
  by (simp add: translateLines_def translateLoop_Cons Let_def length_translateLoop
      del: translateLoop.simps)

text \<open>
  Claim C7. When line 1 begins with the byte-order-mark, the line written first is the
  byte-order-mark followed by what \<open>processLine\<close> returns for the rest of the line,
  whatever branch \<open>processLine\<close> takes (blank, comment, no separator, empty key, key
  found or not found).
\<close>

theorem bom_preserved:
  assumes "HasPrefix line bom"
    and "translateFile fs (line # rest) m = Inr (written, stats)"
  shows "length written = Suc (length rest) \<and>
         hd written =
           bom @ fst (processLine (TrimPrefix line bom) m
                        \<lparr>TotalLines = 1, Translated = 0, Unchanged = 0, Skipped = 0, NotFound = 0\<rparr>)"
proof -
  from assms(2) have "fst (translateLines (line # rest) m) = written"
    by (simp add: translateFile_Inr)
  with translateLines_bom [OF assms(1), of rest m] show ?thesis by simp
qed

theorem bom_preserved_witness:
  "HasPrefix (bom @ ''K1=V1'') bom \<and>
   translateFile noFaults [bom @ ''K1=V1'', ''# note''] [''K1'' \<mapsto> ''X1''] =
     Inr ([bom @ ''K1=X1'', ''# note''],
          \<lparr>TotalLines = 2, Translated = 1, Unchanged = 0, Skipped = 1, NotFound = 0\<rparr>) \<and>
   hd [bom @ ''K1=X1'', ''# note''] =
     bom @ fst (processLine (TrimPrefix (bom @ ''K1=V1'') bom) [''K1'' \<mapsto> ''X1'']
                  \<lparr>TotalLines = 1, Translated = 0, Unchanged = 0, Skipped = 0, NotFound = 0\<rparr>)"
proof -
  have h: "HasPrefix (bom @ ''K1=V1'') bom"
    by (simp add: HasPrefix_def)
  have e: "translateFile noFaults [bom @ ''K1=V1'', ''# note''] [''K1'' \<mapsto> ''X1''] =
     Inr ([bom @ ''K1=X1'', ''# note''],
          \<lparr>TotalLines = 2, Translated = 1, Unchanged = 0, Skipped = 1, NotFound = 0\<rparr>)"
    by (simp add: translateFile_noFaults translateLines_def processLine_def string_eval Let_def)
  from bom_preserved [OF h e] h e show ?thesis by blast
qed



section \<open>The two parsers\<close>

lemma spaceSeqs_nonempty: "[] \<notin> set spaceSeqs"
  by (simp add: spaceSeqs_def)

lemma rev_spaceSeqs_nonempty: "[] \<notin> set (map rev spaceSeqs)"
  by (simp add: spaceSeqs_def)

lemma spaceSeqs_no_eq: "\<forall>e\<in>set spaceSeqs. CHR ''='' \<notin> set e"
  by (simp add: spaceSeqs_def)

lemma rev_spaceSeqs_no_eq: "\<forall>e\<in>set (map rev spaceSeqs). CHR ''='' \<notin> set e"
  by (simp add: spaceSeqs_def)

lemma TrimRightSpace_prefix: "prefix (TrimRightSpace s) s"
  using dropSeqs_suffix [of "map rev spaceSeqs" "rev s"]
  by (simp add: TrimRightSpace_def suffix_to_prefix)

lemma TrimLeftSpace_no_prefix: "e \<in> set spaceSeqs \<Longrightarrow> \<not> prefix e (TrimLeftSpace s)"
  unfolding TrimLeftSpace_def by (rule dropSeqs_no_prefix [OF spaceSeqs_nonempty])

lemma TrimLeftSpace_prefix_fixed:
  assumes "TrimLeftSpace s = s" and "prefix t s"
  shows "TrimLeftSpace t = t"
proof -
  have "\<not> prefix e t" if "e \<in> set spaceSeqs" for e
  proof
    assume "prefix e t"
    from this assms(2) have "prefix e s" by (rule prefix_order.trans)
    with TrimLeftSpace_no_prefix [OF that, of s] assms(1) show False by simp
  qed
  then show ?thesis unfolding TrimLeftSpace_def by (intro dropSeqs_eq_self) blast
qed

lemma TrimLeftSpace_idem: "TrimLeftSpace (TrimLeftSpace s) = TrimLeftSpace s"
  unfolding TrimLeftSpace_def by (rule dropSeqs_idem [OF spaceSeqs_nonempty])

lemma TrimRightSpace_idem: "TrimRightSpace (TrimRightSpace s) = TrimRightSpace s"
  unfolding TrimRightSpace_def by (simp add: dropSeqs_idem [OF rev_spaceSeqs_nonempty])

lemma TrimLeftSpace_TrimSpace: "TrimLeftSpace (TrimSpace s) = TrimSpace s"
  unfolding TrimSpace_def
  by (rule TrimLeftSpace_prefix_fixed [OF TrimLeftSpace_idem TrimRightSpace_prefix])

lemma TrimSpace_idem: "TrimSpace (TrimSpace s) = TrimSpace s"
proof -
  have "TrimSpace (TrimSpace s) = TrimRightSpace (TrimLeftSpace (TrimSpace s))"
    by (simp add: TrimSpace_def)
  also have "\<dots> = TrimRightSpace (TrimSpace s)" by (simp add: TrimLeftSpace_TrimSpace)
  also have "\<dots> = TrimSpace s" by (simp add: TrimSpace_def TrimRightSpace_idem)
  finally show ?thesis .
qed

lemma TrimLeftSpace_takeWhile:
  "TrimLeftSpace (takeWhile (\<lambda>x. x \<noteq> CHR ''='') s) = takeWhile (\<lambda>x. x \<noteq> CHR ''='') (TrimLeftSpace s)"
  unfolding TrimLeftSpace_def by (rule dropSeqs_takeWhile [OF spaceSeqs_no_eq])

lemma TrimSpace_mem_eq: "(CHR ''='' \<in> set (TrimSpace s)) = (CHR ''='' \<in> set s)"
proof -
  have "(CHR ''='' \<in> set (TrimRightSpace t)) = (CHR ''='' \<in> set t)" for t
    using dropSeqs_mem [OF rev_spaceSeqs_no_eq, of "rev t"] by (simp add: TrimRightSpace_def)
  moreover have "(CHR ''='' \<in> set (TrimLeftSpace t)) = (CHR ''='' \<in> set t)" for t
    using dropSeqs_mem [OF spaceSeqs_no_eq, of t] by (simp add: TrimLeftSpace_def)
  ultimately show ?thesis by (simp add: TrimSpace_def)
qed

lemma key_agree:
  assumes "CHR ''='' \<in> set line"
  shows "TrimSpace (takeWhile (\<lambda>x. x \<noteq> CHR ''='') (TrimSpace line)) =
         TrimSpace (takeWhile (\<lambda>x. x \<noteq> CHR ''='') line)"
proof -
  let ?P = "\<lambda>x. x \<noteq> CHR ''=''"
  define L where "L = TrimLeftSpace line"
  define T where "T = TrimSpace line"
  have T: "T = TrimRightSpace L" by (simp add: T_def L_def TrimSpace_def)
  have mem: "CHR ''='' \<in> set T" using assms by (simp add: T_def TrimSpace_mem_eq)
  obtain post where post: "L = T @ post"
    using TrimRightSpace_prefix [of L] T by (auto simp: prefix_def)
  have tw: "takeWhile ?P T = takeWhile ?P L"
    unfolding post using mem by (simp add: takeWhile_append1)
  have "TrimSpace (takeWhile ?P T) = TrimRightSpace (takeWhile ?P (TrimLeftSpace T))"
    by (simp add: TrimSpace_def TrimLeftSpace_takeWhile)
  also have "TrimLeftSpace T = T" unfolding T_def by (rule TrimLeftSpace_TrimSpace)
  also have "TrimRightSpace (takeWhile ?P T) = TrimRightSpace (takeWhile ?P L)"
    by (simp only: tw)
  also have "\<dots> = TrimSpace (takeWhile ?P line)"
    by (simp add: TrimSpace_def TrimLeftSpace_takeWhile L_def)
  finally show ?thesis unfolding T_def .
qed

lemma take_Index:
  "CHR ''='' \<in> set s \<Longrightarrow> take (nat (Index s (CHR ''=''))) s = takeWhile (\<lambda>x. x \<noteq> CHR ''='') s"
  using takeWhile_eq_take [of "\<lambda>x. x \<noteq> CHR ''=''" s] by (simp add: Index_def)

lemma Index_minus_one: "(Index s c = -1) = (c \<notin> set s)"
  by (simp add: Index_def)

text \<open>
  Claim C10. With the byte-order-mark handling of line 1 left aside, the loop body of
  \<open>parseINIFile\<close> and \<open>processLine\<close> take the same branch for every line (blank,
  comment, no separator, empty key, valid) and on the valid branch hold the same
  trimmed key, although the first looks for \<open>=\<close> in the trimmed line and the second
  in the raw line. \<open>extractClass\<close> and \<open>applyClass\<close> are the branches of the two
  functions: \<open>parseEntry_cases\<close> and \<open>processLine_cases\<close> below read the functions
  off them.
\<close>

theorem parsers_agree: "extractClass line = applyClass line"
proof (cases "CHR ''='' \<in> set line")
  case False
  then show ?thesis
    by (simp add: extractClass_def applyClass_def Let_def Index_minus_one TrimSpace_mem_eq)
next
  case True
  then have "CHR ''='' \<in> set (TrimSpace line)" by (simp add: TrimSpace_mem_eq)
  with True show ?thesis
    by (simp add: extractClass_def applyClass_def Let_def Index_minus_one take_Index key_agree)
qed

section \<open>A second substitution pass\<close>

declare scanText.simps [simp del]

lemma parseEntry_cases:
  "parseEntry n scanned =
     (let line = TrimSpace (if n = 1 \<and> HasPrefix scanned bom then TrimPrefix scanned bom else scanned)
      in case extractClass line of
           Valid key \<Rightarrow> Some (key, TrimSpace (drop (nat (Index line (CHR ''='') + 1)) line))
         | _ \<Rightarrow> None)"
  by (simp add: parseEntry_def extractClass_def Let_def TrimSpace_idem)

lemma fst_processLine:
  "fst (processLine line m st) =
     (case applyClass line of
        Valid key \<Rightarrow> (case m key of Some v \<Rightarrow> key @ ''='' @ v | None \<Rightarrow> line)
      | _ \<Rightarrow> line)"
  by (simp add: processLine_cases split: lineClass.splits option.splits)

lemma HasPrefix_single: "HasPrefix s [c] = (s \<noteq> [] \<and> hd s = c)"
  by (cases s) (auto simp: HasPrefix_def)

lemma TrimSpace_sep:
  assumes "TrimLeftSpace k = k"
  shows "TrimSpace (k @ CHR ''='' # v) = k @ CHR ''='' # TrimRightSpace v"
proof -
  have "TrimLeftSpace (k @ CHR ''='' # v) = k @ CHR ''='' # v"
    using dropSeqs_sep [OF spaceSeqs_no_eq, of k v] assms by (simp add: TrimLeftSpace_def)
  moreover have "TrimRightSpace (k @ CHR ''='' # v) = k @ CHR ''='' # TrimRightSpace v"
    using dropSeqs_sep [OF rev_spaceSeqs_no_eq, of "rev v" "rev k"]
    by (simp add: TrimRightSpace_def)
  ultimately show ?thesis by (simp add: TrimSpace_def)
qed

lemma Valid_key_facts:
  assumes "applyClass line = Valid key"
  shows "key \<noteq> []" and "TrimSpace key = key" and "CHR ''='' \<notin> set key"
    and "hd key \<noteq> CHR ''#''" and "hd key \<noteq> CHR '';''"
proof -
  let ?P = "\<lambda>x. x \<noteq> CHR ''=''"
  define T where "T = TrimSpace line"
  define L where "L = TrimLeftSpace line"
  from assms have T: "T \<noteq> []" "\<not> HasPrefix T ''#''" "\<not> HasPrefix T '';''"
    and mem: "CHR ''='' \<in> set line"
    and key: "key = TrimSpace (take (nat (Index line (CHR ''=''))) line)" "key \<noteq> []"
    by (auto simp: applyClass_def Let_def T_def Index_minus_one split: if_splits)
  from key mem have k: "key = TrimSpace (takeWhile ?P line)" by (simp add: take_Index)
  show "key \<noteq> []" by fact
  show "TrimSpace key = key" unfolding k by (rule TrimSpace_idem)
  have "CHR ''='' \<notin> set (takeWhile ?P line)" by (auto dest: set_takeWhileD)
  then show "CHR ''='' \<notin> set key" unfolding k by (simp add: TrimSpace_mem_eq)
  have "key = TrimRightSpace (takeWhile ?P L)"
    unfolding k by (simp add: TrimSpace_def TrimLeftSpace_takeWhile L_def)
  then have "prefix key (takeWhile ?P L)" by (simp add: TrimRightSpace_prefix)
  moreover have "prefix (takeWhile ?P L) L" by (metis prefix_def takeWhile_dropWhile_id)
  ultimately have "prefix key L" by (rule prefix_order.trans)
  moreover have "prefix T L" by (simp add: T_def L_def TrimSpace_def TrimRightSpace_prefix)
  ultimately have "hd key = hd T" using \<open>key \<noteq> []\<close> \<open>T \<noteq> []\<close>
    by (cases key; cases T; cases L) auto
  with T show "hd key \<noteq> CHR ''#''" "hd key \<noteq> CHR '';''"
    by (auto simp: HasPrefix_single)
qed

lemma applyClass_rewritten:
  assumes "applyClass line = Valid key"
  shows "applyClass (key @ ''='' @ v) = Valid key"
proof -
  note f = Valid_key_facts [OF assms]
  have tl: "TrimLeftSpace key = key"
    using TrimLeftSpace_TrimSpace [of key] f(2) by simp
  have t: "TrimSpace (key @ CHR ''='' # v) = key @ CHR ''='' # TrimRightSpace v"
    by (rule TrimSpace_sep [OF tl])
  have "takeWhile (\<lambda>x. x \<noteq> CHR ''='') (key @ CHR ''='' # v) = key"
    using f(3) by (subst takeWhile_append2) auto
  then have i: "Index (key @ CHR ''='' # v) (CHR ''='') = int (length key)"
    by (simp add: Index_def)
  show ?thesis
    using f by (simp add: applyClass_def Let_def t i HasPrefix_single hd_append)
qed

lemma processLine_idem:
  "fst (processLine (fst (processLine line m st)) m st') = fst (processLine line m st)"
proof (cases "applyClass line")
  case (Valid key)
  show ?thesis
  proof (cases "m key")
    case None
    with Valid show ?thesis by (simp add: fst_processLine)
  next
    case (Some v)
    with Valid applyClass_rewritten [OF Valid, of v] show ?thesis
      by (simp add: fst_processLine)
  qed
qed (simp_all add: fst_processLine)

lemma bom_no_eq: "CHR ''='' \<notin> set bom"
  by (simp add: bom_def)

lemma processLine_no_bom:
  assumes "\<not> HasPrefix line bom" and "\<forall>k\<in>dom m. \<not> HasPrefix k bom"
  shows "\<not> HasPrefix (fst (processLine line m st)) bom"
proof (cases "applyClass line")
  case (Valid key)
  show ?thesis
  proof (cases "m key")
    case None
    with Valid assms show ?thesis by (simp add: fst_processLine)
  next
    case (Some v)
    then have "\<not> HasPrefix key bom" using assms(2) by blast
    then have "\<not> HasPrefix (key @ CHR ''='' # v) bom"
      unfolding HasPrefix_def by (simp add: prefix_sep [OF bom_no_eq])
    with Valid Some show ?thesis by (simp add: fst_processLine)
  qed
qed (use assms in \<open>simp_all add: fst_processLine\<close>)

lemma translateLoop_bom:
  assumes "n + 1 = 1 \<and> HasPrefix line bom"
  shows "fst (translateLoop m n (line # rest) st) =
     (bom @ fst (processLine (TrimPrefix line bom) m (st\<lparr>TotalLines := TotalLines st + 1\<rparr>)))
       # fst (translateLoop m (n + 1) rest
                (snd (processLine (TrimPrefix line bom) m (st\<lparr>TotalLines := TotalLines st + 1\<rparr>))))"
  using assms by (simp add: translateLoop_Cons Let_def del: translateLoop.simps)

lemma translateLoop_plain:
  assumes "\<not> (n + 1 = 1 \<and> HasPrefix line bom)"
  shows "fst (translateLoop m n (line # rest) st) =
     fst (processLine line m (st\<lparr>TotalLines := TotalLines st + 1\<rparr>))
       # fst (translateLoop m (n + 1) rest
                (snd (processLine line m (st\<lparr>TotalLines := TotalLines st + 1\<rparr>))))"
  using assms by (auto simp: translateLoop_Cons Let_def simp del: translateLoop.simps)

text \<open>
  The second pass reads the file the first pass wrote. A carriage return at the end of a
  written string is dropped by the scanner, so the line the second pass sees is
  \<open>dropCRText\<close> of the string the first pass wrote.
\<close>

lemma dropCRText_prefix: "prefix (dropCRText s) s"
  by (simp add: dropCRText_def prefixeq_butlast)

lemma dropCRText_sep: "dropCRText (k @ CHR ''='' # v) = k @ CHR ''='' # dropCRText v"
  by (cases "v = []") (simp_all add: dropCRText_def butlast_append)

lemma dropCRText_bom:
  "dropCRText (bom @ q) = bom @ dropCRText q"
  by (cases "q = []") (simp_all add: dropCRText_def butlast_append bom_def)

lemma dropCRText_TrimPrefix:
  assumes "dropCRText line = line"
  shows "dropCRText (TrimPrefix line bom) = TrimPrefix line bom"
proof (cases "HasPrefix line bom")
  case True
  then obtain q where q: "line = bom @ q" by (auto simp: HasPrefix_def prefix_def)
  with assms have "bom @ dropCRText q = bom @ q" by (simp add: dropCRText_bom)
  then show ?thesis by (simp add: q TrimPrefix_def HasPrefix_def)
next
  case False
  with assms show ?thesis by (simp add: TrimPrefix_def)
qed

lemma processLine_dropCRText:
  assumes "dropCRText line = line"
  shows "fst (processLine (dropCRText (fst (processLine line m st))) m st') = fst (processLine line m st)"
proof (cases "applyClass line")
  case (Valid key)
  show ?thesis
  proof (cases "m key")
    case None
    with Valid assms show ?thesis by (simp add: fst_processLine)
  next
    case (Some v)
    with Valid applyClass_rewritten [OF Valid, of "dropCRText v"] show ?thesis
      by (simp add: fst_processLine dropCRText_sep)
  qed
qed (use assms in \<open>simp_all add: fst_processLine\<close>)

lemma scanText_unfold:
  "scanText data =
     (if data = [] then ([], False)
      else if MaxScanTokenSize \<le> length (takeWhile (\<lambda>c. c \<noteq> CHR 0x0A) data) then ([], True)
      else (dropCRText (takeWhile (\<lambda>c. c \<noteq> CHR 0x0A) data)
              # fst (scanText (drop (length (takeWhile (\<lambda>c. c \<noteq> CHR 0x0A) data) + 1) data)),
            snd (scanText (drop (length (takeWhile (\<lambda>c. c \<noteq> CHR 0x0A) data) + 1) data))))"
  by (subst scanText.simps) (simp add: Let_def split: prod.splits)

lemma scanText_writeLines:
  assumes "\<forall>w\<in>set ws. CHR 0x0A \<notin> set w"
    and "\<not> snd (scanText (writeLines ws))"
  shows "fst (scanText (writeLines ws)) = map dropCRText ws"
  using assms
proof (induction ws)
  case Nil
  show ?case by (simp add: writeLines_def scanText.simps)
next
  case (Cons w ws)
  have w: "writeLines (w # ws) = w @ CHR 0x0A # writeLines ws"
    by (simp add: writeLines_def)
  from Cons.prems(1) have t: "takeWhile (\<lambda>c. c \<noteq> CHR 0x0A) (w @ CHR 0x0A # writeLines ws) = w"
    by (subst takeWhile_append2) auto
  have s: "scanText (writeLines (w # ws)) =
      (if MaxScanTokenSize \<le> length w then ([], True)
       else (dropCRText w # fst (scanText (writeLines ws)), snd (scanText (writeLines ws))))"
    unfolding w by (subst scanText.simps) (simp add: t Let_def split: prod.splits)
  from Cons.prems(2) have short: "\<not> MaxScanTokenSize \<le> length w"
    and rest: "\<not> snd (scanText (writeLines ws))"
    by (auto simp: s split: if_splits)
  from Cons.IH [OF _ rest] Cons.prems(1) have "fst (scanText (writeLines ws)) = map dropCRText ws"
    by simp
  with short show ?case by (simp add: s)
qed

lemma scanText_no_newline: "l \<in> set (fst (scanText data)) \<Longrightarrow> CHR 0x0A \<notin> set l"
proof (induction data arbitrary: l rule: scanText.induct)
  case (1 data)
  define token where "token = takeWhile (\<lambda>c. c \<noteq> CHR 0x0A) data"
  have tok: "CHR 0x0A \<notin> set token"
    unfolding token_def by (auto dest: set_takeWhileD)
  have sub: "set (dropCRText token) \<subseteq> set token"
    by (rule set_mono_prefix [OF dropCRText_prefix])
  show ?case
  proof (cases "data = [] \<or> MaxScanTokenSize \<le> length token")
    case True
    with "1.prems" show ?thesis
      unfolding scanText_unfold [of data] token_def by (auto split: if_splits)
  next
    case False
    with "1.prems" have "l = dropCRText token \<or> l \<in> set (fst (scanText (drop (length token + 1) data)))"
      unfolding scanText_unfold [of data] token_def by (auto split: if_splits)
    then show ?thesis
    proof
      assume "l = dropCRText token"
      with tok sub show ?thesis by auto
    next
      assume "l \<in> set (fst (scanText (drop (length token + 1) data)))"
      with False show ?thesis
        by (intro "1.IH" [of token]) (auto simp: token_def)
    qed
  qed
qed

lemma TrimSpace_subset: "set (TrimSpace s) \<subseteq> set s"
proof -
  have "set (TrimSpace s) \<subseteq> set (TrimLeftSpace s)"
    unfolding TrimSpace_def by (rule set_mono_prefix [OF TrimRightSpace_prefix])
  also have "\<dots> \<subseteq> set s"
    unfolding TrimLeftSpace_def by (rule set_mono_suffix [OF dropSeqs_suffix])
  finally show ?thesis .
qed

lemma processLine_no_newline:
  assumes "CHR 0x0A \<notin> set line" and "\<forall>v\<in>ran m. CHR 0x0A \<notin> set v"
  shows "CHR 0x0A \<notin> set (fst (processLine line m st))"
proof (cases "applyClass line")
  case (Valid key)
  show ?thesis
  proof (cases "m key")
    case None
    with Valid assms show ?thesis by (simp add: fst_processLine)
  next
    case (Some v)
    from Valid have "key = TrimSpace (take (nat (Index line (CHR ''=''))) line)"
      by (auto simp: applyClass_def Let_def split: if_splits)
    then have "set key \<subseteq> set line"
      using TrimSpace_subset [of "take (nat (Index line (CHR ''=''))) line"]
        set_take_subset [of "nat (Index line (CHR ''=''))" line] by auto
    moreover from Some assms(2) have "CHR 0x0A \<notin> set v" by (auto simp: ran_def)
    ultimately show ?thesis using Valid Some assms(1) by (auto simp: fst_processLine)
  qed
qed (use assms in \<open>simp_all add: fst_processLine\<close>)

lemma translateLoop_no_newline:
  assumes "\<forall>v\<in>ran m. CHR 0x0A \<notin> set v" and "\<forall>l\<in>set ls. CHR 0x0A \<notin> set l"
  shows "\<forall>w\<in>set (fst (translateLoop m n ls st)). CHR 0x0A \<notin> set w"
  using assms(2)
proof (induction ls arbitrary: n st)
  case Nil
  show ?case by simp
next
  case (Cons line rest)
  from Cons.prems have line: "CHR 0x0A \<notin> set line" and rest: "\<forall>l\<in>set rest. CHR 0x0A \<notin> set l"
    by simp_all
  note IH = Cons.IH [OF rest]
  show ?case
  proof (cases "n + 1 = 1 \<and> HasPrefix line bom")
    case True
    then obtain q where q: "line = bom @ q" by (auto simp: HasPrefix_def prefix_def)
    with line have "CHR 0x0A \<notin> set (TrimPrefix line bom)"
      by (simp add: TrimPrefix_def HasPrefix_def)
    from processLine_no_newline [OF this assms(1)] IH show ?thesis
      unfolding translateLoop_bom [OF True] by (simp add: bom_def)
  next
    case False
    from processLine_no_newline [OF line assms(1)] IH show ?thesis
      unfolding translateLoop_plain [OF False] by simp
  qed
qed

lemma translateLoop_reread:
  assumes "\<forall>k\<in>dom m. \<not> HasPrefix k bom" and "\<forall>l\<in>set ls. dropCRText l = l"
  shows "fst (translateLoop m n (map dropCRText (fst (translateLoop m n ls st))) st') =
     fst (translateLoop m n ls st)"
  using assms(2)
proof (induction ls arbitrary: n st st')
  case Nil
  show ?case by simp
next
  case (Cons line rest)
  from Cons.prems have line: "dropCRText line = line" and rest: "\<forall>l\<in>set rest. dropCRText l = l"
    by simp_all
  note IH = Cons.IH [OF rest]
  define st1 where "st1 = st\<lparr>TotalLines := TotalLines st + 1\<rparr>"
  define st1' where "st1' = st'\<lparr>TotalLines := TotalLines st' + 1\<rparr>"
  show ?case
  proof (cases "n + 1 = 1 \<and> HasPrefix line bom")
    case True
    define p where "p = fst (processLine (TrimPrefix line bom) m st1)"
    define st2 where "st2 = snd (processLine (TrimPrefix line bom) m st1)"
    define out where "out = fst (translateLoop m (n + 1) rest st2)"
    define r where "r = dropCRText p"
    have one: "fst (translateLoop m n (line # rest) st) = (bom @ p) # out"
      unfolding p_def st2_def st1_def out_def by (rule translateLoop_bom [OF True])
    have two: "map dropCRText ((bom @ p) # out) = (bom @ r) # map dropCRText out"
      by (simp add: dropCRText_bom r_def)
    have hp: "n + 1 = 1 \<and> HasPrefix (bom @ r) bom"
      using True by (simp add: HasPrefix_def)
    have tp: "TrimPrefix (bom @ r) bom = r"
      by (simp add: HasPrefix_def TrimPrefix_def)
    have again: "fst (processLine r m st1') = p"
      unfolding p_def r_def by (rule processLine_dropCRText [OF dropCRText_TrimPrefix [OF line]])
    have "fst (translateLoop m n ((bom @ r) # map dropCRText out) st') =
        (bom @ fst (processLine r m st1'))
          # fst (translateLoop m (n + 1) (map dropCRText out) (snd (processLine r m st1')))"
      using translateLoop_bom [OF hp, of m "map dropCRText out" st'] by (simp only: tp st1'_def)
    also have "\<dots> = (bom @ p) # out"
      unfolding again out_def by (simp only: IH)
    finally show ?thesis unfolding one two .
  next
    case False
    define p where "p = fst (processLine line m st1)"
    define st2 where "st2 = snd (processLine line m st1)"
    define out where "out = fst (translateLoop m (n + 1) rest st2)"
    define r where "r = dropCRText p"
    have one: "fst (translateLoop m n (line # rest) st) = p # out"
      unfolding p_def st2_def st1_def out_def by (rule translateLoop_plain [OF False])
    have two: "map dropCRText (p # out) = r # map dropCRText out"
      by (simp add: r_def)
    have again: "fst (processLine r m st1') = p"
      unfolding p_def r_def by (rule processLine_dropCRText [OF line])
    have nb: "\<not> (n + 1 = 1 \<and> HasPrefix r bom)"
    proof
      assume a: "n + 1 = 1 \<and> HasPrefix r bom"
      with False have "\<not> HasPrefix line bom" by simp
      from processLine_no_bom [OF this assms(1), of st1] have "\<not> prefix bom p"
        by (simp add: p_def HasPrefix_def)
      moreover from a have "prefix bom r" by (simp add: HasPrefix_def)
      moreover have "prefix r p" unfolding r_def by (rule dropCRText_prefix)
      ultimately show False by (meson prefix_order.trans)
    qed
    have "fst (translateLoop m n (r # map dropCRText out) st') =
        fst (processLine r m st1')
          # fst (translateLoop m (n + 1) (map dropCRText out) (snd (processLine r m st1')))"
      using translateLoop_plain [OF nb, of m "map dropCRText out" st'] by (simp only: st1'_def)
    also have "\<dots> = p # out"
      unfolding again out_def by (simp only: IH)
    finally show ?thesis unfolding one two .
  qed
qed

lemma translateFileBytes_Inr:
  "(translateFileBytes fs content m = Inr (out, stats)) =
     (\<not> openErr fs \<and> \<not> createTempErr fs \<and> \<not> scanErr fs \<and> \<not> snd (scanText content) \<and>
      \<not> flushErr fs \<and> \<not> renameErr fs \<and>
      out = writeLines (fst (translateLines (fst (scanText content)) m)) \<and>
      stats = snd (translateLines (fst (scanText content)) m))"
  by (auto simp: translateFileBytes_def translateFile_def split: prod.splits sum.splits if_splits)

lemma translateFileBytes_noFaults:
  "scanText content = (lines, False) \<Longrightarrow>
   translateFileBytes noFaults content m =
     Inr (writeLines (fst (translateLines lines m)), snd (translateLines lines m))"
  by (simp add: translateFileBytes_def translateFile_def noFaults_def split: prod.splits)

lemma scan_witness:
  "scanText (''K1 = V1'' @ [CHR 0x0D, CHR 0x0A] @ ''K2=V2'' @ [CHR 0x0A]) = ([''K1 = V1'', ''K2=V2''], False)"
  by (simp add: scanText_unfold MaxScanTokenSize_def dropCRText_def)

lemma scan_witness2:
  "scanText (''K1=X1'' @ [CHR 0x0A] @ ''K2=V2'' @ [CHR 0x0A]) = ([''K1=X1'', ''K2=V2''], False)"
  by (simp add: scanText_unfold MaxScanTokenSize_def dropCRText_def)

text \<open>
  Claim C6, as amended. The first run reads the content of the file and replaces it; the
  second run reads what the first run wrote. When no key of the map begins with the
  byte-order-mark, no value of the map holds a newline and no line the scanner yields
  from the input still ends in a carriage return (the input has no line that ends in
  two carriage returns), and both runs return their statistics, the second run writes
  the file the first run wrote.
\<close>

theorem second_pass_identical:
  assumes "\<forall>k\<in>dom m. \<not> HasPrefix k bom"
    and "\<forall>v\<in>ran m. CHR 0x0A \<notin> set v"
    and "\<forall>l\<in>set (fst (scanText content)). dropCRText l = l"
    and "translateFileBytes fs content m = Inr (content', stats)"
    and "translateFileBytes fs' content' m = Inr (content'', stats')"
  shows "content'' = content'"
proof -
  define ls where "ls = fst (scanText content)"
  define written where "written = fst (translateLines ls m)"
  from assms(4) have 1: "content' = writeLines written"
    by (simp add: translateFileBytes_Inr written_def ls_def)
  from assms(5) have 2: "content'' = writeLines (fst (translateLines (fst (scanText content')) m))"
    and fit: "\<not> snd (scanText content')"
    by (simp_all add: translateFileBytes_Inr)
  have "\<forall>l\<in>set ls. CHR 0x0A \<notin> set l"
    unfolding ls_def by (blast dest: scanText_no_newline)
  then have "\<forall>w\<in>set written. CHR 0x0A \<notin> set w"
    unfolding written_def translateLines_def by (rule translateLoop_no_newline [OF assms(2)])
  from scanText_writeLines [OF this] fit have "fst (scanText content') = map dropCRText written"
    by (simp add: 1)
  moreover have "fst (translateLines (map dropCRText written) m) = written"
    unfolding written_def translateLines_def
    by (rule translateLoop_reread [OF assms(1)]) (use assms(3) in \<open>simp add: ls_def\<close>)
  ultimately show ?thesis by (simp add: 1 2)
qed

theorem second_pass_identical_witness:
  "translateFileBytes noFaults (''K1 = V1'' @ [CHR 0x0D, CHR 0x0A] @ ''K2=V2'' @ [CHR 0x0A])
       [''K1'' \<mapsto> ''X1''] =
     Inr (''K1=X1'' @ [CHR 0x0A] @ ''K2=V2'' @ [CHR 0x0A],
          \<lparr>TotalLines = 2, Translated = 1, Unchanged = 1, Skipped = 0, NotFound = 1\<rparr>) \<and>
   translateFileBytes noFaults (''K1=X1'' @ [CHR 0x0A] @ ''K2=V2'' @ [CHR 0x0A])
       [''K1'' \<mapsto> ''X1''] =
     Inr (''K1=X1'' @ [CHR 0x0A] @ ''K2=V2'' @ [CHR 0x0A],
          \<lparr>TotalLines = 2, Translated = 1, Unchanged = 1, Skipped = 0, NotFound = 1\<rparr>)"
proof -
  have k: "\<forall>k\<in>dom [''K1'' \<mapsto> ''X1'']. \<not> HasPrefix k bom"
    by (simp add: HasPrefix_def bom_def)
  have v: "\<forall>v\<in>ran [''K1'' \<mapsto> ''X1'']. CHR 0x0A \<notin> set v"
    by simp
  have c: "\<forall>l\<in>set (fst (scanText (''K1 = V1'' @ [CHR 0x0D, CHR 0x0A] @ ''K2=V2'' @ [CHR 0x0A]))).
      dropCRText l = l"
    unfolding scan_witness by (simp add: dropCRText_def)
  have 1: "translateFileBytes noFaults (''K1 = V1'' @ [CHR 0x0D, CHR 0x0A] @ ''K2=V2'' @ [CHR 0x0A])
       [''K1'' \<mapsto> ''X1''] =
     Inr (''K1=X1'' @ [CHR 0x0A] @ ''K2=V2'' @ [CHR 0x0A],
          \<lparr>TotalLines = 2, Translated = 1, Unchanged = 1, Skipped = 0, NotFound = 1\<rparr>)"
    unfolding translateFileBytes_noFaults [OF scan_witness]
    by (simp add: writeLines_def translateLines_def processLine_def string_eval Let_def)
  have 2: "translateFileBytes noFaults (''K1=X1'' @ [CHR 0x0A] @ ''K2=V2'' @ [CHR 0x0A])
       [''K1'' \<mapsto> ''X1''] =
     Inr (''K1=X1'' @ [CHR 0x0A] @ ''K2=V2'' @ [CHR 0x0A],
          \<lparr>TotalLines = 2, Translated = 1, Unchanged = 1, Skipped = 0, NotFound = 1\<rparr>)"
    unfolding translateFileBytes_noFaults [OF scan_witness2]
    by (simp add: writeLines_def translateLines_def processLine_def string_eval Let_def)
  from second_pass_identical [OF k v c 1 2] 1 2 show ?thesis by blast
qed

lemma scan_bom:
  "scanText (CHR '' '' # bom @ ''K=V'' @ [CHR 0x0A]) = ([CHR '' '' # bom @ ''K=V''], False)"
  by (simp add: scanText_unfold MaxScanTokenSize_def dropCRText_def bom_def)

lemma scan_bom2:
  "scanText (bom @ ''K=X'' @ [CHR 0x0A]) = ([bom @ ''K=X''], False)"
  by (simp add: scanText_unfold MaxScanTokenSize_def dropCRText_def bom_def)

text \<open>
  Claim C6 as stated (every file, every map) fails. Line 1 is a blank, the
  byte-order-mark and \<open>K=V\<close>; the map sends the key made of the byte-order-mark and
  \<open>K\<close> to \<open>X\<close>, and the key \<open>K\<close> to \<open>Y\<close>. The first run finds no
  byte-order-mark in front and writes the mark and \<open>K=X\<close>; the second run strips
  the mark, looks \<open>K\<close> up and writes the mark and \<open>K=Y\<close>.
\<close>

theorem second_pass_differs:
  "translateFileBytes noFaults (CHR '' '' # bom @ ''K=V'' @ [CHR 0x0A])
       [bom @ ''K'' \<mapsto> ''X'', ''K'' \<mapsto> ''Y''] =
     Inr (bom @ ''K=X'' @ [CHR 0x0A],
          \<lparr>TotalLines = 1, Translated = 1, Unchanged = 0, Skipped = 0, NotFound = 0\<rparr>) \<and>
   translateFileBytes noFaults (bom @ ''K=X'' @ [CHR 0x0A])
       [bom @ ''K'' \<mapsto> ''X'', ''K'' \<mapsto> ''Y''] =
     Inr (bom @ ''K=Y'' @ [CHR 0x0A],
          \<lparr>TotalLines = 1, Translated = 1, Unchanged = 0, Skipped = 0, NotFound = 0\<rparr>) \<and>
   bom @ ''K=Y'' @ [CHR 0x0A] \<noteq> bom @ ''K=X'' @ [CHR 0x0A]"
  unfolding translateFileBytes_noFaults [OF scan_bom] translateFileBytes_noFaults [OF scan_bom2]
  by (simp add: writeLines_def translateLines_def processLine_def string_eval Let_def)

text \<open>
  The two other hypotheses are needed as well. A value that holds a newline makes two
  lines of one: with \<open>K1\<close> mapped to \<open>X\<close>, a newline and \<open>Y\<close>, the file of
  the one line \<open>K1=V1\<close> becomes the two lines \<open>K1=X\<close> and \<open>Y\<close>, and the
  second run, which rewrites the first of them, leaves three. A line that ends in two
  carriage returns loses one to the scanner in each run, whatever the map.
\<close>

lemma scan_value:
  "scanText (''K1=V1'' @ [CHR 0x0A]) = ([''K1=V1''], False)"
  by (simp add: scanText_unfold MaxScanTokenSize_def dropCRText_def)

lemma scan_value2:
  "scanText (''K1=X'' @ [CHR 0x0A] @ ''Y'' @ [CHR 0x0A]) = ([''K1=X'', ''Y''], False)"
  by (simp add: scanText_unfold MaxScanTokenSize_def dropCRText_def)

lemma newline_value_grows:
  "translateFileBytes noFaults (''K1=V1'' @ [CHR 0x0A]) [''K1'' \<mapsto> ''X'' @ [CHR 0x0A] @ ''Y''] =
     Inr (''K1=X'' @ [CHR 0x0A] @ ''Y'' @ [CHR 0x0A],
          \<lparr>TotalLines = 1, Translated = 1, Unchanged = 0, Skipped = 0, NotFound = 0\<rparr>) \<and>
   translateFileBytes noFaults (''K1=X'' @ [CHR 0x0A] @ ''Y'' @ [CHR 0x0A])
       [''K1'' \<mapsto> ''X'' @ [CHR 0x0A] @ ''Y''] =
     Inr (''K1=X'' @ [CHR 0x0A] @ ''Y'' @ [CHR 0x0A] @ ''Y'' @ [CHR 0x0A],
          \<lparr>TotalLines = 2, Translated = 1, Unchanged = 1, Skipped = 0, NotFound = 0\<rparr>)"
  unfolding translateFileBytes_noFaults [OF scan_value] translateFileBytes_noFaults [OF scan_value2]
  by (simp add: writeLines_def translateLines_def processLine_def string_eval Let_def)

lemma scan_cr:
  "scanText (''K=V'' @ [CHR 0x0D, CHR 0x0D, CHR 0x0A]) = ([''K=V'' @ [CHR 0x0D]], False)"
  by (simp add: scanText_unfold MaxScanTokenSize_def dropCRText_def)

lemma scan_cr2:
  "scanText (''K=V'' @ [CHR 0x0D, CHR 0x0A]) = ([''K=V''], False)"
  by (simp add: scanText_unfold MaxScanTokenSize_def dropCRText_def)

lemma carriage_return_dropped:
  "translateFileBytes noFaults (''K=V'' @ [CHR 0x0D, CHR 0x0D, CHR 0x0A]) Map.empty =
     Inr (''K=V'' @ [CHR 0x0D, CHR 0x0A],
          \<lparr>TotalLines = 1, Translated = 0, Unchanged = 1, Skipped = 0, NotFound = 1\<rparr>) \<and>
   translateFileBytes noFaults (''K=V'' @ [CHR 0x0D, CHR 0x0A]) Map.empty =
     Inr (''K=V'' @ [CHR 0x0A],
          \<lparr>TotalLines = 1, Translated = 0, Unchanged = 1, Skipped = 0, NotFound = 1\<rparr>)"
  unfolding translateFileBytes_noFaults [OF scan_cr] translateFileBytes_noFaults [OF scan_cr2]
  by (simp add: writeLines_def translateLines_def processLine_def string_eval Let_def)

section \<open>The extraction pass and the lines the substitution pass leaves alone\<close>

lemma parseLoop_fold:
  "parseLoop n ls entries = fold (\<lambda>(key, value) m. m(key \<mapsto> value)) (scanEntries n ls) entries"
  by (induction ls arbitrary: n entries) (simp_all add: Let_def split: option.splits)

lemma fold_store_other:
  "key \<notin> fst ` set es \<Longrightarrow> fold (\<lambda>(key, value) m. m(key \<mapsto> value)) es entries key = entries key"
  by (induction es arbitrary: entries) (auto split: prod.splits)

lemma parseLines_last:
  assumes "scanEntries 0 lines = before @ (key, value) # after"
    and "key \<notin> fst ` set after"
  shows "parseLines lines key = Some value"
  using assms by (simp add: parseLines_def parseLoop_fold fold_store_other)

text \<open>
  Claim C9. \<open>scanEntries 0 lines\<close> is the sequence of pairs the extraction pass
  stores, in scan order. Whatever came before, the map binds a key to the value of its
  last occurrence in that sequence.
\<close>

theorem last_write_wins:
  assumes "parseINIFile fs lines = Inr entries"
    and "scanEntries 0 lines = before @ (key, value) # after"
    and "key \<notin> fst ` set after"
  shows "entries key = Some value"
proof -
  from assms(1) have "entries = parseLines lines"
    by (simp add: parseINIFile_def Let_def split: if_splits)
  with parseLines_last [OF assms(2,3)] show ?thesis by simp
qed

theorem last_write_wins_witness:
  "scanEntries 0 [''a=1'', ''b =2'', ''# a=9'', ''a= 3 ''] = [(''a'', ''1''), (''b'', ''2'')] @ (''a'', ''3'') # [] \<and>
   ''a'' \<notin> fst ` set ([] :: (string \<times> string) list) \<and>
   parseINIFile noFaults [''a=1'', ''b =2'', ''# a=9'', ''a= 3 ''] =
     Inr (parseLines [''a=1'', ''b =2'', ''# a=9'', ''a= 3 '']) \<and>
   parseLines [''a=1'', ''b =2'', ''# a=9'', ''a= 3 ''] ''a'' = Some ''3''"
proof -
  have e: "scanEntries 0 [''a=1'', ''b =2'', ''# a=9'', ''a= 3 ''] =
      [(''a'', ''1''), (''b'', ''2'')] @ (''a'', ''3'') # []"
    by code_simp
  have n: "''a'' \<notin> fst ` set ([] :: (string \<times> string) list)" by simp
  have p: "parseINIFile noFaults [''a=1'', ''b =2'', ''# a=9'', ''a= 3 ''] =
     Inr (parseLines [''a=1'', ''b =2'', ''# a=9'', ''a= 3 ''])"
    by (simp add: parseINIFile_def noFaults_def)
  from last_write_wins [OF p e n] e n p show ?thesis by blast
qed

lemma translateLoop_nth:
  assumes "i < length ls"
  shows "fst (translateLoop m n ls st) ! i =
     (if n + of_nat i + 1 = 1 \<and> HasPrefix (ls ! i) bom
      then bom @ fst (processLine (TrimPrefix (ls ! i) bom) m st)
      else fst (processLine (ls ! i) m st))"
  using assms
proof (induction ls arbitrary: n st i)
  case Nil
  then show ?case by simp
next
  case (Cons line rest)
  show ?case
  proof (cases i)
    case 0
    show ?thesis
      unfolding 0 by (simp add: translateLoop_Cons Let_def fst_processLine del: translateLoop.simps)
  next
    case (Suc j)
    with Cons.prems have j: "j < length rest" by simp
    have "fst (translateLoop m n (line # rest) st) ! i =
        fst (translateLoop m (n + 1) rest
              (snd (if n + 1 = 1 \<and> HasPrefix line bom
                    then processLine (TrimPrefix line bom) m (st\<lparr>TotalLines := TotalLines st + 1\<rparr>)
                    else processLine line m (st\<lparr>TotalLines := TotalLines st + 1\<rparr>)))) ! j"
      unfolding Suc by (simp add: translateLoop_Cons Let_def del: translateLoop.simps)
    also note Cons.IH [OF j]
    finally show ?thesis
      unfolding Suc by (simp add: fst_processLine ac_simps)
  qed
qed

lemma written_line:
  assumes "i < length lines"
  shows "fst (translateLines lines m) ! i =
     (if (of_nat i :: go_int) = 0 \<and> HasPrefix (lines ! i) bom
      then bom @ fst (processLine (TrimPrefix (lines ! i) bom) m st)
      else fst (processLine (lines ! i) m st))"
  unfolding translateLines_def translateLoop_nth [OF assms] by (simp add: fst_processLine)

lemma unmatched_line_unchanged:
  assumes "i < length lines" and "(of_nat i :: go_int) \<noteq> 0 \<or> \<not> HasPrefix (lines ! i) bom"
    and "\<forall>key. applyClass (lines ! i) = Valid key \<longrightarrow> m key = None"
  shows "fst (translateLines lines m) ! i = lines ! i"
  using assms(2,3) unfolding written_line [OF assms(1), of m st]
  by (auto simp: fst_processLine split: lineClass.splits option.splits)

text \<open>
  Claim C5. The loop hands one string to the writer for each line it reads, in the same
  order (\<open>length_translateLoop\<close>, \<open>written_line\<close>), and for a line that is blank,
  a comment, malformed or whose key is not in the map the string is the line as the
  scanner yielded it (\<open>unmatched_line_unchanged\<close>). These strings are the lines of
  the file written only when none of them holds a newline
  (\<open>scanText_writeLines\<close>, up to a carriage return at the end of a string); a value
  of the map that holds a newline makes two lines of one, so that the file has more
  lines than were read (\<open>newline_value_grows\<close>). The last part of the claim fails
  on ordinary input: for a matched line more than the value is rewritten. The line
  \<open>" K1 = V1"\<close> with \<open>K1\<close> mapped to \<open>X1\<close> is written as \<open>"K1=X1"\<close>,
  without the blank in front and the blanks around the separator, where the comment
  above line 238 of process/main.go says the original spacing around the separator is
  preserved.
\<close>

theorem matched_line_spacing:
  "translateFile noFaults ['' K1 = V1'', ''K2=V2''] [''K1'' \<mapsto> ''X1''] =
     Inr ([''K1=X1'', ''K2=V2''],
          \<lparr>TotalLines = 2, Translated = 1, Unchanged = 1, Skipped = 0, NotFound = 1\<rparr>) \<and>
   take (nat (Index '' K1 = V1'' (CHR ''='') + 1)) '' K1 = V1'' = '' K1 ='' \<and>
   \<not> prefix '' K1 ='' ''K1=X1''"
  by (simp add: translateFile_noFaults translateLines_def processLine_def string_eval Let_def)

section \<open>The encoding classifier\<close>

declare big5Ranges.simps [simp del] gbkRanges.simps [simp del] scanLines.simps [simp del]

lemma replaceLoop_enough:
  "nDst + 3 * length src \<le> dstLen \<Longrightarrow>
     snd (snd (replaceLoop dstLen src nDst nSrc)) = None \<and>
     nDst + length src \<le> fst (replaceLoop dstLen src nDst nSrc)"
proof (induction src arbitrary: nDst nSrc)
  case Nil
  show ?case by simp
next
  case (Cons c0 src)
  show ?case
  proof (cases "c0 < 0x80")
    case True
    from Cons.prems have "(nDst + 1) + 3 * length src \<le> dstLen" by simp
    from Cons.IH [OF this, of "nSrc + 1"] Cons.prems True show ?thesis by simp
  next
    case False
    from Cons.prems have "(nDst + 3) + 3 * length src \<le> dstLen" by simp
    from Cons.IH [OF this, of "nSrc + 1"] Cons.prems False show ?thesis by simp
  qed
qed

lemma replacing_replacementDecoder: "replacing replacementDecoder"
proof -
  have "snd (snd (replacementDecoder (length src * 3) src True)) = None \<and>
        (0 < fst (replacementDecoder (length src * 3) src True)) = (src \<noteq> [])" for src
  proof (cases src)
    case Nil
    then show ?thesis by (simp add: replacementDecoder_def)
  next
    case (Cons c0 rest)
    have "0 + 3 * length src \<le> length src * 3" by simp
    from replaceLoop_enough [OF this, of 0] Cons show ?thesis
      by (simp add: replacementDecoder_def)
  qed
  then show ?thesis unfolding replacing_def by blast
qed

lemma replacing_result:
  assumes "replacing decoder" and "content \<noteq> []"
  obtains n nSrc where "decoder (length content * 3) content True = (n, nSrc, None)" and "0 < n"
proof -
  obtain n nSrc err where d: "decoder (length content * 3) content True = (n, nSrc, err)"
    by (cases "decoder (length content * 3) content True") auto
  from assms d have "err = None" "0 < n"
    unfolding replacing_def by (metis fst_conv snd_conv)+
  with d that show ?thesis by blast
qed

text \<open>What the two range loops compute: a pair of neighbouring bytes in the ranges.\<close>

lemma big5Ranges_iff:
  "big5Ranges content n i =
     (0 < n \<and> (\<exists>j\<ge>i. j + 1 < length content \<and>
        0xA1 \<le> content ! j \<and> content ! j \<le> 0xF9 \<and>
        ((0x40 \<le> content ! (j + 1) \<and> content ! (j + 1) \<le> 0x7E) \<or>
         (0xA1 \<le> content ! (j + 1) \<and> content ! (j + 1) \<le> 0xFE))))"
proof (induction content n i rule: big5Ranges.induct)
  case (1 content n i)
  let ?hit = "\<lambda>j. 0xA1 \<le> content ! j \<and> content ! j \<le> 0xF9 \<and>
        ((0x40 \<le> content ! (j + 1) \<and> content ! (j + 1) \<le> 0x7E) \<or>
         (0xA1 \<le> content ! (j + 1) \<and> content ! (j + 1) \<le> 0xFE))"
  show ?case
  proof (cases "int i < int (length content) - 1")
    case False
    then have "\<not> (\<exists>j\<ge>i. j + 1 < length content \<and> ?hit j)" by auto
    with False show ?thesis by (subst big5Ranges.simps) simp
  next
    case in_range: True
    show ?thesis
    proof (cases "?hit i")
      case True
      with in_range have "\<exists>j\<ge>i. j + 1 < length content \<and> ?hit j"
        by (intro exI [of _ i]) auto
      with True in_range show ?thesis by (subst big5Ranges.simps) auto
    next
      case False
      have step: "big5Ranges content n i = big5Ranges content n (i + 1)"
        using in_range False by (subst big5Ranges.simps) auto
      have "(\<exists>j\<ge>i. j + 1 < length content \<and> ?hit j) = (\<exists>j\<ge>i + 1. j + 1 < length content \<and> ?hit j)"
      proof
        assume "\<exists>j\<ge>i. j + 1 < length content \<and> ?hit j"
        then obtain j where j: "j \<ge> i" "j + 1 < length content" "?hit j" by blast
        with False have "j \<noteq> i" by auto
        with j have "j \<ge> i + 1" by simp
        with j show "\<exists>j\<ge>i + 1. j + 1 < length content \<and> ?hit j" by blast
      next
        assume "\<exists>j\<ge>i + 1. j + 1 < length content \<and> ?hit j"
        then obtain j where j: "j \<ge> i + 1" "j + 1 < length content" "?hit j" by blast
        then have "j \<ge> i" by simp
        with j show "\<exists>j\<ge>i. j + 1 < length content \<and> ?hit j" by blast
      qed
      moreover have "big5Ranges content n (i + 1) =
          (0 < n \<and> (\<exists>j\<ge>i + 1. j + 1 < length content \<and> ?hit j))"
        using in_range False "1.IH" by auto
      ultimately show ?thesis unfolding step by simp
    qed
  qed
qed

lemma sample_big5Ranges: "big5Ranges sampleBuffer n 0 = (0 < n)"
  by (simp add: sampleBuffer_def big5Ranges.simps)

lemma sample_lines:
  "scanLines sampleBuffer =
     [[0x41, 0x53, 0x44, 0x5F, 0x43, 0x6F, 0x75, 0x6E, 0x74, 0x72, 0x79, 0x3D,
       0xE5, 0x9B, 0xBD, 0xE5, 0xAE, 0xB6]]"
  by (simp add: sampleBuffer_def scanLines.simps MaxScanTokenSize_def dropCR_def)

lemma sample_runes:
  "runes [0x41, 0x53, 0x44, 0x5F, 0x43, 0x6F, 0x75, 0x6E, 0x74, 0x72, 0x79, 0x3D,
           0xE5, 0x9B, 0xBD, 0xE5, 0xAE, 0xB6] =
     [0x41, 0x53, 0x44, 0x5F, 0x43, 0x6F, 0x75, 0x6E, 0x74, 0x72, 0x79, 0x3D, 0x56FD, 0x5BB6]"
  by (simp add: first_def)

lemma scanTokens_single:
  "scanTokens 0 [line] = concat (map (flagRune 1 (runes line)) [0..<length (runes line)])"
  by (simp add: Let_def)

lemma sample_flagged:
  "concat (map (flagRune 1
       [0x41, 0x53, 0x44, 0x5F, 0x43, 0x6F, 0x75, 0x6E, 0x74, 0x72, 0x79, 0x3D, 0x56FD, 0x5BB6])
       [0, 1, 2, 3, 4, 5, 6, 7, 8, 9, 10, 11, 12, 13]) =
     [(1, 0x56FD, [0x41, 0x53, 0x44, 0x5F, 0x43, 0x6F, 0x75, 0x6E, 0x74, 0x72, 0x79, 0x3D, 0x56FD, 0x5BB6])]"
  by (simp add: flagRune_def simplifiedOnly_def)

lemma sample_scan:
  "scanUTF8ForSimplified sampleBuffer =
     [(1, 0x56FD, [0x41, 0x53, 0x44, 0x5F, 0x43, 0x6F, 0x75, 0x6E, 0x74, 0x72, 0x79, 0x3D, 0x56FD, 0x5BB6])]"
proof -
  have "[0..<length [0x41, 0x53, 0x44, 0x5F, 0x43, 0x6F, 0x75, 0x6E, 0x74, 0x72, 0x79, 0x3D, 0x56FD, 0x5BB6 :: rune]]
      = [0, 1, 2, 3, 4, 5, 6, 7, 8, 9, 10, 11, 12, 13]"
    by (simp add: upt_rec)
  then show ?thesis
    unfolding scanUTF8ForSimplified_def sample_lines scanTokens_single sample_runes
    by (simp only: sample_flagged)
qed

lemma sample_facts:
  "\<not> hasBOM sampleBuffer" "hasGBKRange sampleBuffer" "sampleBuffer \<noteq> []"
  by (simp_all add: hasBOM_def hasGBKRange_def sampleBuffer_def)

lemma sample_gbkRanges: "gbkRanges sampleBuffer n 0 = (0 < n)"
  by (simp add: sampleBuffer_def gbkRanges.simps)

text \<open>
  Whatever the two decoders are, the sample buffer gets the verdict UTF-8 only when
  both of them return an error or write nothing.
\<close>

lemma sample_utf8_only_if_both_fail:
  "(detectFileEncoding big5 gbk sampleBuffer = ''UTF-8'') =
     ((snd (snd (big5 (length sampleBuffer * 3) sampleBuffer True)) \<noteq> None \<or>
       fst (big5 (length sampleBuffer * 3) sampleBuffer True) = 0) \<and>
      (snd (snd (gbk (length sampleBuffer * 3) sampleBuffer True)) \<noteq> None \<or>
       fst (gbk (length sampleBuffer * 3) sampleBuffer True) = 0))"
  by (cases "big5 (length sampleBuffer * 3) sampleBuffer True";
      cases "gbk (length sampleBuffer * 3) sampleBuffer True")
    (auto simp: detectFileEncoding_def sample_facts isBIG5Encoded_def isGBKEncoded_def
      sample_big5Ranges sample_gbkRanges)

lemma sample_replacing_big5:
  assumes "replacing big5"
  shows "detectFileEncoding big5 gbk sampleBuffer = ''BIG5'' \<and>
         detectorMain big5 gbk sampleBuffer = BIG5Scan \<and>
         scanUTF8ForSimplified sampleBuffer =
           [(1, 0x56FD, [0x41, 0x53, 0x44, 0x5F, 0x43, 0x6F, 0x75, 0x6E, 0x74, 0x72, 0x79, 0x3D, 0x56FD, 0x5BB6])]"
proof -
  obtain n nSrc where d: "big5 (length sampleBuffer * 3) sampleBuffer True = (n, nSrc, None)"
    and n: "0 < n"
    using replacing_result [OF assms sample_facts(3)] by blast
  have "isBIG5Encoded big5 sampleBuffer"
    by (simp add: isBIG5Encoded_def d sample_big5Ranges n)
  then have "detectFileEncoding big5 gbk sampleBuffer = ''BIG5''"
    by (simp add: detectFileEncoding_def sample_facts)
  with sample_scan show ?thesis by (simp add: detectorMain_def)
qed

lemma replacing_accepts: "replacing decoder \<Longrightarrow> content \<noteq> [] \<Longrightarrow> accepts decoder content"
  by (erule (1) replacing_result) (simp add: accepts_def)

lemma sample_isBIG5Encoded: "isBIG5Encoded big5 sampleBuffer = accepts big5 sampleBuffer"
  by (auto simp: isBIG5Encoded_def accepts_def sample_big5Ranges split: prod.splits)

lemma sample_isGBKEncoded: "isGBKEncoded gbk sampleBuffer = accepts gbk sampleBuffer"
  by (auto simp: isGBKEncoded_def accepts_def sample_gbkRanges split: prod.splits)

text \<open>
  Claim C1, as amended. The sample buffer has no byte-order-mark and is valid UTF-8,
  but its bytes 0xE5, 0x9B, 0xBD, 0xE5, 0xAE, 0xB6 are in the high-byte ranges, so the
  first UTF-8 verdict is withheld; and it holds byte pairs in the lead and trail
  ranges of both double-byte encodings. So whenever one of the two decoders accepts
  the buffer, the verdict is not UTF-8 but BIG5 or GB2312/GBK, and the program runs
  the scan of that encoding. \<open>scanUTF8ForSimplified\<close>, applied to the same bytes,
  flags exactly one character, U+56FD on line 1.
\<close>

theorem sample_not_utf8:
  assumes "accepts big5 sampleBuffer \<or> accepts gbk sampleBuffer"
  shows "detectFileEncoding big5 gbk sampleBuffer \<noteq> ''UTF-8'' \<and>
         detectFileEncoding big5 gbk sampleBuffer \<in> {''BIG5'', ''GB2312/GBK''} \<and>
         detectorMain big5 gbk sampleBuffer \<in> {BIG5Scan, GBKScan} \<and>
         scanUTF8ForSimplified sampleBuffer = [(1, 0x56FD, [0x41, 0x53, 0x44, 0x5F, 0x43, 0x6F, 0x75, 0x6E, 0x74, 0x72, 0x79, 0x3D, 0x56FD, 0x5BB6])]"
proof -
  from assms have "detectFileEncoding big5 gbk sampleBuffer \<in> {''BIG5'', ''GB2312/GBK''}"
    by (auto simp: detectFileEncoding_def sample_facts sample_isBIG5Encoded sample_isGBKEncoded)
  then show ?thesis using sample_scan by (auto simp: detectorMain_def)
qed

theorem sample_not_utf8_witness:
  "accepts replacementDecoder sampleBuffer \<and>
   detectFileEncoding replacementDecoder replacementDecoder sampleBuffer \<noteq> ''UTF-8'' \<and>
   detectorMain replacementDecoder replacementDecoder sampleBuffer \<in> {BIG5Scan, GBKScan}"
proof -
  have a: "accepts replacementDecoder sampleBuffer"
    by (rule replacing_accepts [OF replacing_replacementDecoder sample_facts(3)])
  then have "accepts replacementDecoder sampleBuffer \<or> accepts replacementDecoder sampleBuffer"
    by simp
  from sample_not_utf8 [OF this] a show ?thesis by blast
qed

text \<open>
  Claim C1 as stated fails. With decoders of the documented kind, which return no
  error, the verdict for the sample buffer is BIG5 (\<open>sample_replacing_big5\<close>), and
  the program runs the BIG5 scan, not the UTF-8 scan.
\<close>

theorem sample_verdict_big5:
  "detectFileEncoding replacementDecoder replacementDecoder sampleBuffer = ''BIG5'' \<and>
   detectFileEncoding replacementDecoder replacementDecoder sampleBuffer \<noteq> ''UTF-8'' \<and>
   detectorMain replacementDecoder replacementDecoder sampleBuffer = BIG5Scan"
  using sample_replacing_big5 [OF replacing_replacementDecoder, of replacementDecoder] by simp

lemma verdicts: "detectFileEncoding big5 gbk content \<in> {''UTF-8'', ''BIG5'', ''GB2312/GBK''}"
  by (simp add: detectFileEncoding_def)

text \<open>The branch of \<open>main\<close> for an unknown encoding is never taken.\<close>

lemma mixed_scan_unreachable: "detectorMain big5 gbk content \<noteq> MixedScan"
  using verdicts [of big5 gbk content] by (auto simp: detectorMain_def Let_def)

lemma isBIG5Encoded_accepts:
  "isBIG5Encoded big5 content =
     (accepts big5 content \<and>
      (\<exists>j. j + 1 < length content \<and>
        0xA1 \<le> content ! j \<and> content ! j \<le> 0xF9 \<and>
        ((0x40 \<le> content ! (j + 1) \<and> content ! (j + 1) \<le> 0x7E) \<or>
         (0xA1 \<le> content ! (j + 1) \<and> content ! (j + 1) \<le> 0xFE))))"
  by (cases "big5 (length content * 3) content True")
    (auto simp: isBIG5Encoded_def accepts_def big5Ranges_iff)

text \<open>
  With a decoder of the documented kind the test \<open>err != nil\<close> never fires: the byte
  ranges alone decide.
\<close>

lemma isBIG5Encoded_replacing:
  assumes "replacing big5"
  shows "isBIG5Encoded big5 content =
     (\<exists>j. j + 1 < length content \<and>
        0xA1 \<le> content ! j \<and> content ! j \<le> 0xF9 \<and>
        ((0x40 \<le> content ! (j + 1) \<and> content ! (j + 1) \<le> 0x7E) \<or>
         (0xA1 \<le> content ! (j + 1) \<and> content ! (j + 1) \<le> 0xFE)))"
proof (cases "content = []")
  case True
  then show ?thesis by (simp add: isBIG5Encoded_accepts)
next
  case False
  with assms have "accepts big5 content" by (rule replacing_accepts)
  then show ?thesis by (simp add: isBIG5Encoded_accepts)
qed

lemma big5RuleSet_pair:
  "big5RuleSet content = Some k \<Longrightarrow> 0 < k \<Longrightarrow>
     \<exists>j. j + 1 < length content \<and>
        0xA1 \<le> content ! j \<and> content ! j \<le> 0xF9 \<and>
        ((0x40 \<le> content ! (j + 1) \<and> content ! (j + 1) \<le> 0x7E) \<or>
         (0xA1 \<le> content ! (j + 1) \<and> content ! (j + 1) \<le> 0xFE))"
proof (induction content arbitrary: k rule: big5RuleSet.induct)
  case 1
  then show ?case by simp
next
  case (2 b)
  then show ?case by (simp split: if_splits)
next
  case (3 b c rest)
  show ?case
  proof (cases "b < 0x80")
    case True
    with "3.prems" have "big5RuleSet (c # rest) = Some k" by simp
    from "3.IH"(1) [OF True this "3.prems"(2)] obtain j where
      "j + 1 < length (c # rest)" "0xA1 \<le> (c # rest) ! j" "(c # rest) ! j \<le> 0xF9"
      "(0x40 \<le> (c # rest) ! (j + 1) \<and> (c # rest) ! (j + 1) \<le> 0x7E) \<or>
       (0xA1 \<le> (c # rest) ! (j + 1) \<and> (c # rest) ! (j + 1) \<le> 0xFE)"
      by blast
    then show ?thesis by (intro exI [of _ "Suc j"]) simp
  next
    case False
    with "3.prems" have "0xA1 \<le> b \<and> b \<le> 0xF9 \<and> ((0x40 \<le> c \<and> c \<le> 0x7E) \<or> (0xA1 \<le> c \<and> c \<le> 0xFE))"
      by (simp split: if_splits)
    then show ?thesis by (intro exI [of _ 0]) simp
  qed
qed

lemma ruleSet_accepted:
  assumes "replacing big5" and "\<not> hasBOM content"
    and "big5RuleSet content = Some k" and "0 < k"
  shows "detectFileEncoding big5 gbk content = ''BIG5''"
proof -
  from big5RuleSet_pair [OF assms(3,4)] obtain j where
    j: "j + 1 < length content" "0xA1 \<le> content ! j" "content ! j \<le> 0xF9"
      "(0x40 \<le> content ! (j + 1) \<and> content ! (j + 1) \<le> 0x7E) \<or>
       (0xA1 \<le> content ! (j + 1) \<and> content ! (j + 1) \<le> 0xFE)"
    by blast
  then have "isBIG5Encoded big5 content"
    unfolding isBIG5Encoded_replacing [OF assms(1)] by blast
  moreover have "hasBIG5Range content"
    unfolding hasBIG5Range_def list_ex_iff using j by (intro bexI [of _ "content ! j"]) auto
  ultimately show ?thesis using assms(2) by (simp add: detectFileEncoding_def)
qed

text \<open>
  Claim C3. One direction holds (\<open>ruleSet_accepted\<close>: a buffer that decodes under
  the rule set with at least one two-byte sequence is classified BIG5). The other
  fails on the code: the bytes 0xA4, 0x40, 0xFF do not decode under the rule set
  (0xFF is neither a lead byte nor below 0x80), yet whenever the decoder returns no
  error for them, as decoders of the documented kind do for every buffer, the loop
  finds the pair 0xA4, 0x40 and the verdict is BIG5 (\<open>isBIG5Encoded_replacing\<close>: the
  test \<open>err != nil\<close> never fires, only the byte ranges decide).
\<close>

theorem undecodable_classified_big5:
  assumes "accepts big5 [0xA4, 0x40, 0xFF]"
  shows "detectFileEncoding big5 gbk [0xA4, 0x40, 0xFF] = ''BIG5'' \<and>
         big5RuleSet [0xA4, 0x40, 0xFF] = None"
proof -
  have "isBIG5Encoded big5 [0xA4, 0x40, 0xFF]"
    unfolding isBIG5Encoded_accepts using assms by (intro conjI exI [of _ 0]) simp_all
  then have "detectFileEncoding big5 gbk [0xA4, 0x40, 0xFF] = ''BIG5''"
    by (simp add: detectFileEncoding_def hasBOM_def hasBIG5Range_def)
  then show ?thesis by simp
qed

theorem undecodable_classified_big5_witness:
  "accepts replacementDecoder [0xA4, 0x40, 0xFF] \<and>
   detectFileEncoding replacementDecoder replacementDecoder [0xA4, 0x40, 0xFF] = ''BIG5'' \<and>
   big5RuleSet [0xA4, 0x40, 0xFF] = None"
proof -
  have a: "accepts replacementDecoder [0xA4, 0x40, 0xFF]"
    by (rule replacing_accepts [OF replacing_replacementDecoder]) simp
  from undecodable_classified_big5 [OF a] a show ?thesis by blast
qed

text \<open>
  Claim C2, as amended. A buffer that has no byte-order-mark, does not get the first
  UTF-8 verdict and is accepted by neither the BIG5 nor the GBK check gets the verdict
  UTF-8, and the program scans it as UTF-8 text: the classifier has three verdicts
  (\<open>verdicts\<close>) and \<open>Unknown\<close> is not one of them (\<open>mixed_scan_unreachable\<close>).
\<close>

theorem default_verdict_utf8:
  assumes "\<not> hasBOM content"
    and "\<not> (utf8_Valid content \<and> \<not> hasGBKRange content \<and> \<not> hasBIG5Range content)"
    and "\<not> isBIG5Encoded big5 content" and "\<not> isGBKEncoded gbk content"
  shows "detectFileEncoding big5 gbk content = ''UTF-8'' \<and>
         detectFileEncoding big5 gbk content \<noteq> ''Unknown'' \<and>
         detectorMain big5 gbk content = UTF8Scan (scanUTF8ForSimplified content)"
  using assms by (simp add: detectFileEncoding_def detectorMain_def)

lemma single_FF:
  "\<not> hasBOM [0xFF]" "\<not> utf8_Valid [0xFF]"
  "\<not> isBIG5Encoded decoder [0xFF]" "\<not> isGBKEncoded decoder [0xFF]"
  by (auto simp: hasBOM_def first_def isBIG5Encoded_def isGBKEncoded_def
      big5Ranges.simps gbkRanges.simps split: prod.splits)

theorem default_verdict_utf8_witness:
  "detectFileEncoding replacementDecoder replacementDecoder [0xFF] = ''UTF-8''"
proof -
  have "\<not> (utf8_Valid [0xFF] \<and> \<not> hasGBKRange [0xFF] \<and> \<not> hasBIG5Range [0xFF])"
    using single_FF(2) by simp
  from default_verdict_utf8 [OF single_FF(1) this single_FF(3) single_FF(4)]
  show ?thesis by simp
qed

text \<open>
  Claim C2 as stated fails: the single byte 0xFF meets every condition of the claim,
  with any decoder (\<open>single_FF\<close>), and the verdict is UTF-8, not \<open>Unknown\<close>.
\<close>

theorem unknown_not_returned:
  "\<not> hasBOM [0xFF] \<and>
   \<not> (utf8_Valid [0xFF] \<and> \<not> hasGBKRange [0xFF] \<and> \<not> hasBIG5Range [0xFF]) \<and>
   \<not> isBIG5Encoded replacementDecoder [0xFF] \<and>
   \<not> isGBKEncoded replacementDecoder [0xFF] \<and>
   detectFileEncoding replacementDecoder replacementDecoder [0xFF] \<noteq> ''Unknown''"
  using single_FF(1,2) single_FF(3,4) [of replacementDecoder]
  by (simp add: detectFileEncoding_def)

end
